theory Spec2Isabelle
  imports Complex_Main "HOL-Library.Word" "HOL-Library.Signed_Division"
begin

unbundle bit_operations_syntax

section \<open>Bytes, strings and errors\<close>

text \<open>
  The encoder of \<^verbatim>\<open>Tsunami/src/Bytecode.cpp\<close> builds a \<^verbatim>\<open>std::vector<uint8_t>\<close> and
  returns it as a \<^verbatim>\<open>std::string\<close> of the same bytes; both are lists of 8-bit words here.
  A \<^verbatim>\<open>size_t\<close> (64 bits on the hosts of this program, whose pointer offsets are 8 bytes
  apart) is a \<open>nat\<close>: no length in the program reaches \<open>2 ^ 64\<close>. Every conversion of a
  \<^verbatim>\<open>size_t\<close> to \<^verbatim>\<open>uint32_t\<close> or \<^verbatim>\<open>uint8_t\<close> is written out as \<open>of_nat\<close> into the word
  type, which truncates. A \<^verbatim>\<open>double\<close> is its 64-bit object representation, which is all
  the encoder reads of it (\<^verbatim>\<open>memcpy(&bits, &value, 8)\<close>).
\<close>

type_synonym byte = "8 word"
type_synonym bytes = "byte list"

text \<open>A C string literal as bytes.\<close>

definition lit :: "string \<Rightarrow> bytes" where
  "lit s = map of_char s"

text \<open>The only exception the modelled code can raise: \<^verbatim>\<open>std::out_of_range\<close> from
  \<^verbatim>\<open>std::string::substr\<close> when the position lies behind the end.\<close>

datatype error = OutOfRange

definition substr :: "bytes \<Rightarrow> nat \<Rightarrow> error + bytes" where
  "substr s pos = (if pos > length s then Inl OutOfRange else Inr (drop pos s))"

definition substr_n :: "bytes \<Rightarrow> nat \<Rightarrow> nat \<Rightarrow> error + bytes" where
  "substr_n s pos n = (if pos > length s then Inl OutOfRange else Inr (take n (drop pos s)))"

text \<open>\<^verbatim>\<open>s.find(pat)\<close>: the first position at which \<open>pat\<close> occurs, \<open>None\<close> for
  \<^verbatim>\<open>npos\<close>.\<close>

fun find_from :: "bytes \<Rightarrow> bytes \<Rightarrow> nat \<Rightarrow> nat option" where
  "find_from [] pat i = (if pat = [] then Some i else None)"
| "find_from (c # cs) pat i =
     (if take (length pat) (c # cs) = pat then Some i else find_from cs pat (Suc i))"

definition find_str :: "bytes \<Rightarrow> bytes \<Rightarrow> nat option" where
  "find_str s pat = find_from s pat 0"

text \<open>\<^verbatim>\<open>s.c_str()\<close> as a C function reads it: the bytes before the first NUL.\<close>

definition c_str :: "bytes \<Rightarrow> bytes" where
  "c_str s = takeWhile (\<lambda>b. b \<noteq> 0) s"

text \<open>
  \<^verbatim>\<open>strtod\<close> belongs to the C library, not to this program, so it is a parameter: given
  the C string it returns the bits of the parsed double and the offset of \<^verbatim>\<open>end\<close> from
  the start of the string. \<open>parses_fully\<close> is the test the code makes on its result,
  \<^verbatim>\<open>end != s.c_str() && *end == '\0'\<close>; the byte at the offset of the terminator and
  behind is read as 0.
\<close>

type_synonym strtod_fn = "bytes \<Rightarrow> 64 word \<times> nat"

definition deref :: "bytes \<Rightarrow> nat \<Rightarrow> byte" where
  "deref cs e = (if e < length cs then cs ! e else 0)"

definition parses_fully :: "strtod_fn \<Rightarrow> bytes \<Rightarrow> bool" where
  "parses_fully strtod s = (snd (strtod (c_str s)) \<noteq> 0 \<and> deref (c_str s) (snd (strtod (c_str s))) = 0)"

section \<open>Constants of Bytecode.h\<close>

definition LBC_CONSTANT_BOOLEAN :: byte where "LBC_CONSTANT_BOOLEAN = 1"
definition LBC_CONSTANT_NUMBER :: byte where "LBC_CONSTANT_NUMBER = 2"
definition LBC_CONSTANT_STRING :: byte where "LBC_CONSTANT_STRING = 3"

definition LOP_LOADNIL :: byte where "LOP_LOADNIL = 1"
definition LOP_LOADB :: byte where "LOP_LOADB = 2"
definition LOP_LOADN :: byte where "LOP_LOADN = 3"
definition LOP_LOADK :: byte where "LOP_LOADK = 4"
definition LOP_NEWTABLE :: byte where "LOP_NEWTABLE = 45"
definition LOP_SETLIST :: byte where "LOP_SETLIST = 47"

text \<open>
  \<^verbatim>\<open>struct LuauBytecodeHeader\<close> under \<^verbatim>\<open>#pragma pack(push, 1)\<close>, fields in the order of
  the declaration. The field \<^verbatim>\<open>size\<close> is \<open>size_field\<close> (\<open>size\<close> is a constant of HOL).
\<close>

record LuauBytecodeHeader =
  version :: byte
  flags :: byte
  typesize :: byte
  numbersize :: byte
  hash :: "32 word"
  size_field :: "32 word"

definition sizeof_header :: nat where
  "sizeof_header = 12"

definition sizeof_RobloxSignature :: nat where
  "sizeof_RobloxSignature = 20"

text \<open>The object representation of a packed header on a little-endian host, which is
  what \<^verbatim>\<open>memcpy\<close> and the \<^verbatim>\<open>reinterpret_cast\<close>s of the code copy and read.\<close>

definition le32 :: "32 word \<Rightarrow> bytes" where
  "le32 w = [ucast w, ucast (drop_bit 8 w), ucast (drop_bit 16 w), ucast (drop_bit 24 w)]"

definition read_le32 :: "bytes \<Rightarrow> nat \<Rightarrow> 32 word" where
  "read_le32 b off =
     ucast (b ! off) OR push_bit 8 (ucast (b ! (off + 1)))
       OR push_bit 16 (ucast (b ! (off + 2))) OR push_bit 24 (ucast (b ! (off + 3)))"

definition header_bytes :: "LuauBytecodeHeader \<Rightarrow> bytes" where
  "header_bytes h =
     [version h, flags h, typesize h, numbersize h] @ le32 (hash h) @ le32 (size_field h)"

definition header_of :: "bytes \<Rightarrow> LuauBytecodeHeader" where
  "header_of b =
     \<lparr>version = b ! 0, flags = b ! 1, typesize = b ! 2, numbersize = b ! 3,
      hash = read_le32 b 4, size_field = read_le32 b 8\<rparr>"

text \<open>\<^verbatim>\<open>LuauBytecodeHeader header = {0x02, 0x00, 0x08, 0x08, 0, 0}\<close>\<close>

definition header_init :: LuauBytecodeHeader where
  "header_init =
     \<lparr>version = 0x02, flags = 0x00, typesize = 0x08, numbersize = 0x08, hash = 0, size_field = 0\<rparr>"

section \<open>Utility functions\<close>

text \<open>\<^verbatim>\<open>hashBytecode(data, size)\<close>: the loop over \<open>i < size\<close>, reading \<open>data[i]\<close>.\<close>

function hash_loop :: "bytes \<Rightarrow> nat \<Rightarrow> nat \<Rightarrow> 32 word \<Rightarrow> 32 word" where
  "hash_loop data n i h =
     (if i < n then hash_loop data n (Suc i) ((h XOR ucast (data ! i)) * 16777619) else h)"
  by pat_completeness auto
termination
  by (relation "measure (\<lambda>(data, n, i, h). n - i)") auto

declare hash_loop.simps [simp del]

definition hashBytecode :: "bytes \<Rightarrow> nat \<Rightarrow> 32 word" where
  "hashBytecode data n = hash_loop data n 0 2166136261"

text \<open>\<^verbatim>\<open>writeVarInt(value, out)\<close>: the do-while loop, appending to \<open>out\<close>.\<close>

function writeVarInt :: "32 word \<Rightarrow> bytes \<Rightarrow> bytes" where
  "writeVarInt v out =
     (let b = (ucast (v AND 0x7F) :: byte);
          v' = drop_bit 7 v;
          b' = (if v' \<noteq> 0 then b OR 0x80 else b);
          out' = out @ [b']
      in if v' \<noteq> 0 then writeVarInt v' out' else out')"
  by pat_completeness auto
termination
proof (relation "measure (\<lambda>(v, out). unat v)")
  show "wf (measure (\<lambda>(v, out). unat v))" by simp
next
  fix v :: "32 word" and out :: bytes and x xa xb xc
  assume nz: "xa = drop_bit 7 v" "xa \<noteq> 0"
  have "unat (drop_bit 7 v) = unat v div 128"
    by (simp add: unat_drop_bit_eq drop_bit_eq_div unat_div)
  moreover have "unat (drop_bit 7 v) \<noteq> 0"
    using nz by (simp add: unat_eq_0)
  ultimately have "unat (drop_bit 7 v) < unat v" by linarith
  then show "((xa, xc), v, out) \<in> measure (\<lambda>(v, out). unat v)"
    using nz by simp
qed

declare writeVarInt.simps [simp del]

text \<open>\<^verbatim>\<open>encodeOpcode\<close>: the operand is promoted to \<^verbatim>\<open>int\<close>, multiplied (at most
  \<open>255 * 227\<close>, no overflow), masked and converted back to \<^verbatim>\<open>uint8_t\<close>.\<close>

definition encodeOpcode :: "byte \<Rightarrow> byte" where
  "encodeOpcode opcode = word_of_int ((uint opcode * 227) AND 0xFF)"

text \<open>The three statements that close every builder: the size and the hash of the bytes
  behind the header are stored in the header, and the header is copied over the first
  twelve bytes of the buffer. \<^verbatim>\<open>header.size\<close> is a \<^verbatim>\<open>uint32_t\<close>; the hash runs over
  \<^verbatim>\<open>header.size\<close> bytes.\<close>

definition update_header :: "LuauBytecodeHeader \<Rightarrow> bytes \<Rightarrow> bytes" where
  "update_header header bytecode =
     (let header = header\<lparr>size_field := of_nat (length bytecode - sizeof_header)\<rparr>;
          header = header\<lparr>hash := hashBytecode (drop sizeof_header bytecode) (unat (size_field header))\<rparr>
      in header_bytes header @ drop sizeof_header bytecode)"

text \<open>The eight bytes the builders push for a double: low byte first.\<close>

definition write_double_bits :: "64 word \<Rightarrow> bytes \<Rightarrow> bytes" where
  "write_double_bits bits out =
     snd (foldl (\<lambda>(bits, out) i. (drop_bit 8 bits, out @ [ucast (bits AND 0xFF)])) (bits, out) [0..<8])"

section \<open>Basic push operations\<close>

definition CreatePushNil :: bytes where
  "CreatePushNil =
     (let header = header_init;
          bytecode = header_bytes header;
          bytecode = writeVarInt 0 bytecode;
          bytecode = writeVarInt 1 bytecode;
          bytecode = writeVarInt 0 bytecode;
          bytecode = writeVarInt 0 bytecode;
          bytecode = writeVarInt 1 bytecode;
          bytecode = writeVarInt 0 bytecode;
          bytecode = writeVarInt 1 bytecode;
          bytecode = bytecode @ [encodeOpcode LOP_LOADNIL];
          bytecode = bytecode @ [0x00];
          bytecode = writeVarInt 0 bytecode;
          bytecode = writeVarInt 0 bytecode;
          bytecode = writeVarInt 0 bytecode;
          bytecode = writeVarInt 0 bytecode;
          bytecode = bytecode @ [0x00];
          bytecode = bytecode @ [0x00]
      in update_header header bytecode)"

definition CreatePushBoolean :: "bool \<Rightarrow> bytes" where
  "CreatePushBoolean v =
     (let header = header_init;
          bytecode = header_bytes header;
          bytecode = writeVarInt 0 bytecode;
          bytecode = writeVarInt 1 bytecode;
          bytecode = writeVarInt 1 bytecode;
          bytecode = writeVarInt 0 bytecode;
          bytecode = writeVarInt 0 bytecode;
          bytecode = writeVarInt 0 bytecode;
          bytecode = writeVarInt 1 bytecode;
          bytecode = bytecode @ [encodeOpcode LOP_LOADB];
          bytecode = bytecode @ [0x00];
          bytecode = bytecode @ [if v then 0x01 else 0x00];
          bytecode = bytecode @ [0x00];
          bytecode = writeVarInt 0 bytecode;
          bytecode = writeVarInt 0 bytecode;
          bytecode = writeVarInt 0 bytecode;
          bytecode = writeVarInt 0 bytecode;
          bytecode = bytecode @ [0x00];
          bytecode = bytecode @ [0x00]
      in update_header header bytecode)"

definition CreatePushNumber :: "64 word \<Rightarrow> bytes" where
  "CreatePushNumber v =
     (let header = header_init;
          bytecode = header_bytes header;
          bytecode = writeVarInt 1 bytecode;
          bytecode = bytecode @ [LBC_CONSTANT_NUMBER];
          bits = v;
          bytecode = write_double_bits bits bytecode;
          bytecode = writeVarInt 1 bytecode;
          bytecode = writeVarInt 1 bytecode;
          bytecode = writeVarInt 0 bytecode;
          bytecode = writeVarInt 0 bytecode;
          bytecode = writeVarInt 0 bytecode;
          bytecode = writeVarInt 1 bytecode;
          bytecode = bytecode @ [encodeOpcode LOP_LOADN];
          bytecode = bytecode @ [0x00];
          bytecode = bytecode @ [0x00];
          bytecode = writeVarInt 1 bytecode;
          bytecode = writeVarInt 0 bytecode;
          bytecode = writeVarInt 0 bytecode;
          bytecode = writeVarInt 0 bytecode;
          bytecode = bytecode @ [0x00];
          bytecode = bytecode @ [0x00]
      in update_header header bytecode)"

definition CreatePushString :: "bytes \<Rightarrow> bytes" where
  "CreatePushString v =
     (let header = header_init;
          bytecode = header_bytes header;
          bytecode = writeVarInt 1 bytecode;
          bytecode = bytecode @ [LBC_CONSTANT_STRING];
          bytecode = writeVarInt (of_nat (length v)) bytecode;
          bytecode = bytecode @ v;
          bytecode = writeVarInt 1 bytecode;
          bytecode = writeVarInt 1 bytecode;
          bytecode = writeVarInt 0 bytecode;
          bytecode = writeVarInt 0 bytecode;
          bytecode = writeVarInt 0 bytecode;
          bytecode = writeVarInt 1 bytecode;
          bytecode = bytecode @ [encodeOpcode LOP_LOADK];
          bytecode = bytecode @ [0x00];
          bytecode = bytecode @ [0x00];
          bytecode = writeVarInt 1 bytecode;
          bytecode = writeVarInt 0 bytecode;
          bytecode = writeVarInt 0 bytecode;
          bytecode = writeVarInt 0 bytecode;
          bytecode = bytecode @ [0x00];
          bytecode = bytecode @ [0x00]
      in update_header header bytecode)"

section \<open>Table operations\<close>

text \<open>The two \<^verbatim>\<open>int\<close> arguments are integers; \<^verbatim>\<open>static_cast<uint8_t>(arraySize & 0xFF)\<close>
  is the two's-complement mask followed by the conversion.\<close>

definition CreatePushTable :: "int \<Rightarrow> int \<Rightarrow> bytes" where
  "CreatePushTable arraySize hashSize =
     (let header = header_init;
          bytecode = header_bytes header;
          bytecode = writeVarInt 0 bytecode;
          bytecode = writeVarInt 1 bytecode;
          bytecode = writeVarInt 1 bytecode;
          bytecode = writeVarInt 0 bytecode;
          bytecode = writeVarInt 0 bytecode;
          bytecode = writeVarInt 0 bytecode;
          bytecode = writeVarInt 1 bytecode;
          bytecode = bytecode @ [encodeOpcode LOP_NEWTABLE];
          bytecode = bytecode @ [0x00];
          bytecode = bytecode @ [word_of_int (arraySize AND 0xFF)];
          bytecode = bytecode @ [word_of_int (hashSize AND 0xFF)];
          bytecode = writeVarInt 0 bytecode;
          bytecode = writeVarInt 0 bytecode;
          bytecode = writeVarInt 0 bytecode;
          bytecode = writeVarInt 0 bytecode;
          bytecode = bytecode @ [0x00];
          bytecode = bytecode @ [0x00]
      in update_header header bytecode)"

text \<open>One string constant: tag, length as a varint (a \<^verbatim>\<open>size_t\<close> passed as
  \<^verbatim>\<open>uint32_t\<close>), then the bytes.\<close>

definition write_string_constant :: "bytes \<Rightarrow> bytes \<Rightarrow> bytes" where
  "write_string_constant bytecode v =
     (let bytecode = bytecode @ [LBC_CONSTANT_STRING];
          bytecode = writeVarInt (of_nat (length v)) bytecode
      in bytecode @ v)"

definition CreatePushArray :: "bytes list \<Rightarrow> bytes" where
  "CreatePushArray values =
     (if values = [] then CreatePushTable 0 0
      else
       let header = header_init;
           bytecode = header_bytes header;
           bytecode = writeVarInt (of_nat (length values)) bytecode;
           bytecode = foldl write_string_constant bytecode values;
           bytecode = writeVarInt 1 bytecode;
           bytecode = writeVarInt (of_nat (1 + length values)) bytecode;
           bytecode = writeVarInt 0 bytecode;
           bytecode = writeVarInt 0 bytecode;
           bytecode = writeVarInt 0 bytecode;
           bytecode = writeVarInt (of_nat (length values + 2)) bytecode;
           bytecode = bytecode @ [encodeOpcode LOP_NEWTABLE];
           bytecode = bytecode @ [0x00];
           bytecode = bytecode @ [of_nat (length values)];
           bytecode = bytecode @ [0x00];
           bytecode = foldl (\<lambda>bytecode i.
                        bytecode @ [encodeOpcode LOP_LOADK] @ [of_nat (i + 1)] @ [of_nat i])
                      bytecode [0..<length values];
           bytecode = bytecode @ [encodeOpcode LOP_SETLIST];
           bytecode = bytecode @ [0x00];
           bytecode = bytecode @ [of_nat (length values)];
           bytecode = bytecode @ [0x00];
           bytecode = writeVarInt (of_nat (length values)) bytecode;
           bytecode = writeVarInt 0 bytecode;
           bytecode = writeVarInt 0 bytecode;
           bytecode = writeVarInt 0 bytecode;
           bytecode = bytecode @ [0x00];
           bytecode = bytecode @ [0x00]
       in update_header header bytecode)"

section \<open>Multiple values\<close>

text \<open>The five vectors the classification loop of \<^verbatim>\<open>CreatePushMultiple\<close> fills.\<close>

record classification =
  isNumber :: "bool list"
  isBool :: "bool list"
  numbers :: "64 word list"
  booleans :: "bool list"
  strings :: "bytes list"

definition classify_step :: "strtod_fn \<Rightarrow> bytes list \<Rightarrow> classification \<Rightarrow> nat \<Rightarrow> classification" where
  "classify_step strtod values st i =
     (let val = values ! i
      in if val = lit ''true'' then
           st\<lparr>isBool := (isBool st)[i := True], booleans := booleans st @ [True]\<rparr>
         else if val = lit ''false'' then
           st\<lparr>isBool := (isBool st)[i := True], booleans := booleans st @ [False]\<rparr>
         else
           let num = fst (strtod (c_str val))
           in if parses_fully strtod val then
                st\<lparr>isNumber := (isNumber st)[i := True], numbers := numbers st @ [num]\<rparr>
              else st\<lparr>strings := strings st @ [val]\<rparr>)"

definition classify :: "strtod_fn \<Rightarrow> bytes list \<Rightarrow> classification" where
  "classify strtod values =
     foldl (classify_step strtod values)
       \<lparr>isNumber = replicate (length values) False, isBool = replicate (length values) False,
        numbers = [], booleans = [], strings = []\<rparr>
       [0..<length values]"

definition write_number_constant :: "bytes \<Rightarrow> 64 word \<Rightarrow> bytes" where
  "write_number_constant bytecode num =
     (let bytecode = bytecode @ [LBC_CONSTANT_NUMBER];
          bits = num
      in write_double_bits bits bytecode)"

definition write_boolean_constant :: "bytes \<Rightarrow> bool \<Rightarrow> bytes" where
  "write_boolean_constant bytecode b =
     (let bytecode = bytecode @ [LBC_CONSTANT_BOOLEAN]
      in bytecode @ [if b then 0x01 else 0x00])"

text \<open>One round of the loop that emits the load instructions; the state is the buffer
  and the counters \<^verbatim>\<open>numIdx\<close>, \<^verbatim>\<open>boolIdx\<close>, \<^verbatim>\<open>strIdx\<close>.\<close>

definition load_step :: "classification \<Rightarrow> bytes \<times> nat \<times> nat \<times> nat \<Rightarrow> nat \<Rightarrow> bytes \<times> nat \<times> nat \<times> nat" where
  "load_step c st i =
     (case st of (bytecode, numIdx, boolIdx, strIdx) \<Rightarrow>
        if isBool c ! i then
          (bytecode @ [encodeOpcode LOP_LOADB] @ [of_nat i]
             @ [if booleans c ! boolIdx then 0x01 else 0x00] @ [0x00],
           numIdx, Suc boolIdx, strIdx)
        else if isNumber c ! i then
          (bytecode @ [encodeOpcode LOP_LOADN] @ [of_nat i] @ [of_nat numIdx],
           Suc numIdx, boolIdx, strIdx)
        else
          (bytecode @ [encodeOpcode LOP_LOADK] @ [of_nat i]
             @ [of_nat (length (numbers c) + length (booleans c) + strIdx)],
           numIdx, boolIdx, Suc strIdx))"

definition CreatePushMultiple :: "strtod_fn \<Rightarrow> bytes list \<Rightarrow> bytes" where
  "CreatePushMultiple strtod values =
     (if values = [] then CreatePushNil
      else
       let header = header_init;
           bytecode = header_bytes header;
           c = classify strtod values;
           totalConstants = (of_nat (length (numbers c) + length (booleans c) + length (strings c)) :: 32 word);
           bytecode = writeVarInt totalConstants bytecode;
           bytecode = foldl write_number_constant bytecode (numbers c);
           bytecode = foldl write_boolean_constant bytecode (booleans c);
           bytecode = foldl write_string_constant bytecode (strings c);
           bytecode = writeVarInt 1 bytecode;
           bytecode = writeVarInt (of_nat (length values)) bytecode;
           bytecode = writeVarInt 0 bytecode;
           bytecode = writeVarInt 0 bytecode;
           bytecode = writeVarInt 0 bytecode;
           bytecode = writeVarInt (of_nat (length values)) bytecode;
           bytecode = fst (foldl (load_step c) (bytecode, 0, 0, 0) [0..<length values]);
           bytecode = writeVarInt totalConstants bytecode;
           bytecode = writeVarInt 0 bytecode;
           bytecode = writeVarInt 0 bytecode;
           bytecode = writeVarInt 0 bytecode;
           bytecode = bytecode @ [0x00];
           bytecode = bytecode @ [0x00]
       in update_header header bytecode)"

section \<open>Roblox-specific types\<close>

text \<open>\<^verbatim>\<open>CreatePushVector2\<close> fills a local buffer, drops it and returns
  \<^verbatim>\<open>CreatePushTable(2, 0)\<close>; \<^verbatim>\<open>CreatePushVector3\<close> returns \<^verbatim>\<open>CreatePushTable(3, 0)\<close>.
  Neither result depends on the arguments.\<close>

definition CreatePushVector2 :: bytes where
  "CreatePushVector2 = CreatePushTable 2 0"

definition CreatePushVector3 :: bytes where
  "CreatePushVector3 = CreatePushTable 3 0"

section \<open>Validation and signature stripping\<close>

definition ValidateBytecode :: "bytes \<Rightarrow> bool" where
  "ValidateBytecode bytecode =
     (if length bytecode < sizeof_header then False
      else
       let header = header_of bytecode
       in if version header \<noteq> 0x02 then False
          else if unat (size_field header) \<noteq> length bytecode - sizeof_header then False
          else
           let calculated = hashBytecode (drop sizeof_header bytecode) (unat (size_field header))
           in hash header = calculated)"

definition Decompress :: "bytes \<Rightarrow> error + bytes" where
  "Decompress signedBytecode =
     (if length signedBytecode \<ge> 16 then
        if signedBytecode ! 0 = of_char CHR ''R'' \<and> signedBytecode ! 1 = of_char CHR ''B''
           \<and> signedBytecode ! 2 = of_char CHR ''X'' \<and> signedBytecode ! 3 = of_char CHR ''2''
        then substr signedBytecode sizeof_RobloxSignature
        else Inr signedBytecode
      else Inr signedBytecode)"

section \<open>Compile\<close>

text \<open>The double quote is the byte \<open>0x22\<close>.\<close>

definition Compile :: "strtod_fn \<Rightarrow> bytes \<Rightarrow> error + bytes" where
  "Compile strtod source =
     (if find_str source (lit ''return '') = Some 0 then
        case substr source 7 of
          Inl e \<Rightarrow> Inl e
        | Inr v \<Rightarrow>
            if v = lit ''nil'' then Inr CreatePushNil
            else if v = lit ''true'' then Inr (CreatePushBoolean True)
            else if v = lit ''false'' then Inr (CreatePushBoolean False)
            else
             let num = fst (strtod (c_str v))
             in if parses_fully strtod v then Inr (CreatePushNumber num)
                else if length v \<ge> 2 \<and> v ! 0 = 0x22 \<and> last v = 0x22 then
                  case substr_n v 1 (length v - 2) of
                    Inl e \<Rightarrow> Inl e
                  | Inr s \<Rightarrow> Inr (CreatePushString s)
                else Inr CreatePushNil
      else Inr CreatePushNil)"

section \<open>The Compiler class\<close>

text \<open>
  The members of \<^verbatim>\<open>class Compiler\<close> that \<^verbatim>\<open>compile()\<close> reads and writes. Inside the class
  the names \<^verbatim>\<open>writeVarInt\<close> and \<^verbatim>\<open>writeDouble\<close> are the member functions, which append to
  the member \<^verbatim>\<open>bytecode\<close> with the loops of the functions above; \<^verbatim>\<open>compile()\<close> calls them,
  so the counts, the lengths and the bytes of the doubles go to \<^verbatim>\<open>bytecode\<close> and not to
  the \<^verbatim>\<open>result\<close> it returns.
\<close>

record Compiler =
  bytecode :: bytes
  constants :: "bytes list"
  numberConstants :: "64 word list"
  boolConstants :: "bool list"

definition Compiler_writeVarInt :: "32 word \<Rightarrow> Compiler \<Rightarrow> Compiler" where
  "Compiler_writeVarInt v cmp = cmp\<lparr>bytecode := writeVarInt v (bytecode cmp)\<rparr>"

definition Compiler_writeDouble :: "64 word \<Rightarrow> Compiler \<Rightarrow> Compiler" where
  "Compiler_writeDouble v cmp = cmp\<lparr>bytecode := write_double_bits v (bytecode cmp)\<rparr>"

definition Compiler_compile :: "Compiler \<Rightarrow> bytes \<times> Compiler" where
  "Compiler_compile cmp =
     (let header = header_init;
          result = header_bytes header;
          cmp = Compiler_writeVarInt
                  (of_nat (length (constants cmp) + length (numberConstants cmp)
                     + length (boolConstants cmp))) cmp;
          (result, cmp) = foldl (\<lambda>(result, cmp) num.
                              (result @ [LBC_CONSTANT_NUMBER], Compiler_writeDouble num cmp))
                            (result, cmp) (numberConstants cmp);
          result = foldl (\<lambda>result b. (result @ [LBC_CONSTANT_BOOLEAN]) @ [if b then 0x01 else 0x00])
                     result (boolConstants cmp);
          (result, cmp) = foldl (\<lambda>(result, cmp) str.
                              (let result = result @ [LBC_CONSTANT_STRING];
                                   cmp = Compiler_writeVarInt (of_nat (length str)) cmp
                               in (result @ str, cmp)))
                            (result, cmp) (constants cmp)
      in (update_header header result, cmp))"

section \<open>The operations of the encoder\<close>

text \<open>A call of one of the functions of \<^verbatim>\<open>Bytecode.cpp\<close> that return a module with its
  header filled in, and its result.\<close>

datatype builder_call =
    CallPushNil
  | CallPushBoolean bool
  | CallPushNumber "64 word"
  | CallPushString bytes
  | CallPushTable int int
  | CallPushArray "bytes list"
  | CallPushMultiple "bytes list"
  | CallPushVector2
  | CallPushVector3
  | CallCompile bytes
  | CallCompilerCompile Compiler

fun run_call :: "strtod_fn \<Rightarrow> builder_call \<Rightarrow> error + bytes" where
  "run_call strtod CallPushNil = Inr CreatePushNil"
| "run_call strtod (CallPushBoolean v) = Inr (CreatePushBoolean v)"
| "run_call strtod (CallPushNumber v) = Inr (CreatePushNumber v)"
| "run_call strtod (CallPushString v) = Inr (CreatePushString v)"
| "run_call strtod (CallPushTable a h) = Inr (CreatePushTable a h)"
| "run_call strtod (CallPushArray values) = Inr (CreatePushArray values)"
| "run_call strtod (CallPushMultiple values) = Inr (CreatePushMultiple strtod values)"
| "run_call strtod CallPushVector2 = Inr CreatePushVector2"
| "run_call strtod CallPushVector3 = Inr CreatePushVector3"
| "run_call strtod (CallCompile source) = Compile strtod source"
| "run_call strtod (CallCompilerCompile cmp) = Inr (fst (Compiler_compile cmp))"

section \<open>Notions used in the statements\<close>

text \<open>The checksum in the words of the specification: start at 2166136261; for each
  byte, XOR it in, then multiply by 16777619 in unsigned 32-bit arithmetic.\<close>

primrec fnv1a_from :: "32 word \<Rightarrow> bytes \<Rightarrow> 32 word" where
  "fnv1a_from h [] = h"
| "fnv1a_from h (b # bs) = fnv1a_from ((h XOR ucast b) * 16777619) bs"

definition checksum :: "bytes \<Rightarrow> 32 word" where
  "checksum payload = fnv1a_from 2166136261 payload"

text \<open>What the closing statements of a builder make of a buffer that consists of the
  initial header and a payload.\<close>

definition assemble :: "bytes \<Rightarrow> bytes" where
  "assemble payload = update_header header_init (header_bytes header_init @ payload)"

text \<open>The encoded entries of the constant pool.\<close>

definition string_entry :: "bytes \<Rightarrow> bytes" where
  "string_entry v = [LBC_CONSTANT_STRING] @ writeVarInt (of_nat (length v)) [] @ v"

definition number_entry :: "64 word \<Rightarrow> bytes" where
  "number_entry v = [LBC_CONSTANT_NUMBER, ucast v, ucast (drop_bit 8 v), ucast (drop_bit 16 v),
       ucast (drop_bit 24 v), ucast (drop_bit 32 v), ucast (drop_bit 40 v),
       ucast (drop_bit 48 v), ucast (drop_bit 56 v)]"

definition boolean_entry :: "bool \<Rightarrow> bytes" where
  "boolean_entry b = [LBC_CONSTANT_BOOLEAN, if b then 1 else 0]"

text \<open>The value of the bits of a normal IEEE-754 double: sign, 11 bits of biased
  exponent, 52 bits of fraction.\<close>

definition double_value :: "64 word \<Rightarrow> real" where
  "double_value bits =
     (let s = bit bits 63;
          e = unat (take_bit 11 (drop_bit 52 bits));
          m = unat (take_bit 52 bits)
      in (if s then - 1 else 1) * (1 + of_nat m / 2 ^ 52) * 2 powi (int e - 1023))"




text \<open>
  The classes \<^verbatim>\<open>CreatePushMultiple\<close> is specified to sort its elements into, in the order
  of the tests: boolean (\<^verbatim>\<open>true\<close> or \<^verbatim>\<open>false\<close>), number (parses fully), string (the rest);
  and the elements of a list that fall into one class, in their order.
\<close>

datatype kind = KBool | KNum | KStr

definition kind_of :: "strtod_fn \<Rightarrow> bytes \<Rightarrow> kind" where
  "kind_of strtod v =
     (if v = lit ''true'' \<or> v = lit ''false'' then KBool
      else if parses_fully strtod v then KNum else KStr)"

definition of_kind :: "strtod_fn \<Rightarrow> kind \<Rightarrow> bytes list \<Rightarrow> bytes list" where
  "of_kind strtod k vs = filter (\<lambda>v. kind_of strtod v = k) vs"

text \<open>
  The load instruction of an element: \<open>LoadB\<close> with the register and the value inline,
  \<open>LoadN\<close> and \<open>LoadK\<close> with the register and the index of a constant. The element at
  position \<open>i\<close> is loaded into register \<open>i\<close>; a number refers to its position among the
  numbers; a string refers to the number of numbers plus the number of booleans plus its
  position among the strings. The encoding keeps the low 8 bits of a register and of an
  index.
\<close>

datatype load_instr = LoadB nat bool | LoadN nat nat | LoadK nat nat

fun encode_instr :: "load_instr \<Rightarrow> bytes" where
  "encode_instr (LoadB r b) = [encodeOpcode LOP_LOADB, of_nat r, if b then 0x01 else 0x00, 0x00]"
| "encode_instr (LoadN r k) = [encodeOpcode LOP_LOADN, of_nat r, of_nat k]"
| "encode_instr (LoadK r k) = [encodeOpcode LOP_LOADK, of_nat r, of_nat k]"

fun constant_ref :: "load_instr \<Rightarrow> nat option" where
  "constant_ref (LoadB r b) = None"
| "constant_ref (LoadN r k) = Some k"
| "constant_ref (LoadK r k) = Some k"

definition load_of :: "strtod_fn \<Rightarrow> bytes list \<Rightarrow> nat \<Rightarrow> load_instr" where
  "load_of strtod vs i =
     (case kind_of strtod (vs ! i) of
        KBool \<Rightarrow> LoadB i (vs ! i = lit ''true'')
      | KNum \<Rightarrow> LoadN i (length (of_kind strtod KNum (take i vs)))
      | KStr \<Rightarrow> LoadK i (length (of_kind strtod KNum vs) + length (of_kind strtod KBool vs)
                           + length (of_kind strtod KStr (take i vs))))"

text \<open>The vectors of the classification loop after \<open>k\<close> rounds.\<close>

definition classified :: "strtod_fn \<Rightarrow> bytes list \<Rightarrow> nat \<Rightarrow> classification" where
  "classified strtod vs k =
     \<lparr>isNumber = map (\<lambda>v. kind_of strtod v = KNum) (take k vs) @ replicate (length vs - k) False,
      isBool = map (\<lambda>v. kind_of strtod v = KBool) (take k vs) @ replicate (length vs - k) False,
      numbers = map (\<lambda>v. fst (strtod (c_str v))) (of_kind strtod KNum (take k vs)),
      booleans = map (\<lambda>v. v = lit ''true'') (of_kind strtod KBool (take k vs)),
      strings = of_kind strtod KStr (take k vs)\<rparr>"

section \<open>Properties of the utility functions\<close>

lemma drop_bit7_less: "drop_bit 7 (v :: 32 word) \<noteq> 0 \<Longrightarrow> unat (drop_bit 7 v) < unat v"
proof -
  assume nz: "drop_bit 7 v \<noteq> 0"
  have "unat (drop_bit 7 v) = unat v div 128"
    by (simp add: unat_drop_bit_eq drop_bit_eq_div unat_div)
  moreover have "unat (drop_bit 7 v) \<noteq> 0"
    using nz by (simp add: unat_eq_0)
  ultimately show ?thesis by linarith
qed

lemma writeVarInt_append: "writeVarInt v out = out @ writeVarInt v []"
proof (induction "unat v" arbitrary: v out rule: less_induct)
  case less
  show ?case
  proof (cases "drop_bit 7 v = 0")
    case True
    then show ?thesis by (simp add: writeVarInt.simps [of v] Let_def)
  next
    case False
    let ?b = "(ucast (v AND 0x7F) OR 0x80) :: byte"
    have "writeVarInt v out = writeVarInt (drop_bit 7 v) (out @ [?b])"
      using False by (simp add: writeVarInt.simps [of v out] Let_def)
    also have "\<dots> = (out @ [?b]) @ writeVarInt (drop_bit 7 v) []"
      by (rule less) (rule drop_bit7_less [OF False])
    also have "\<dots> = out @ writeVarInt (drop_bit 7 v) [?b]"
      using less [OF drop_bit7_less [OF False], of "[?b]"] by simp
    also have "\<dots> = out @ writeVarInt v []"
      using False by (simp add: writeVarInt.simps [of v "[]"] Let_def)
    finally show ?thesis .
  qed
qed

lemma writeVarInt_0: "writeVarInt 0 [] = [0]"
  by (simp add: writeVarInt.simps [of 0])

lemma writeVarInt_1: "writeVarInt 1 [] = [1]"
  by (simp add: writeVarInt.simps [of 1])

lemma upt8: "[0..<8] = [0, 1, 2, 3, 4, 5, 6, 7 :: nat]"
  by code_simp

lemma ucast_and_255: "(ucast ((w :: 64 word) AND 0xFF) :: byte) = ucast w"
proof -
  have m: "(0xFF :: 64 word) = mask 8" by (simp add: mask_eq_exp_minus_1)
  show ?thesis unfolding m by (rule bit_word_eqI) (auto simp: bit_simps)
qed

lemma write_double_bits_eq:
  "write_double_bits bits out = out @ [ucast bits, ucast (drop_bit 8 bits), ucast (drop_bit 16 bits),
     ucast (drop_bit 24 bits), ucast (drop_bit 32 bits), ucast (drop_bit 40 bits),
     ucast (drop_bit 48 bits), ucast (drop_bit 56 bits)]"
  by (simp add: write_double_bits_def upt8 ucast_and_255 drop_bit_drop_bit)

lemma le32_roundtrip:
  "ucast (ucast w :: byte) OR push_bit 8 (ucast (ucast (drop_bit 8 w) :: byte))
     OR push_bit 16 (ucast (ucast (drop_bit 16 w) :: byte))
     OR push_bit 24 (ucast (ucast (drop_bit 24 w) :: byte)) = (w :: 32 word)"
  (is "?l = w")
proof (rule bit_word_eqI)
  fix n :: nat
  assume "n < LENGTH(32)"
  then have n: "n < 32" by simp
  consider "n < 8" | "8 \<le> n" "n < 16" | "16 \<le> n" "n < 24" | "24 \<le> n"
    by linarith
  then show "bit ?l n = bit w n"
    using n by cases (auto simp: bit_simps)
qed

lemma read_le32_le32: "read_le32 (a @ le32 w @ b) (length a) = w"
  by (simp add: read_le32_def le32_def nth_append le32_roundtrip)

lemma hash_loop_eq:
  "n \<le> length data \<Longrightarrow> hash_loop data n i h = fnv1a_from h (take (n - i) (drop i data))"
proof (induction data n i h rule: hash_loop.induct)
  case (1 data n i h)
  show ?case
  proof (cases "i < n")
    case True
    then have "i < length data" using "1.prems" by simp
    then have d: "drop i data = data ! i # drop (Suc i) data"
      by (simp add: Cons_nth_drop_Suc)
    have t: "n - i = Suc (n - Suc i)" using True by simp
    show ?thesis
      using True "1.IH" [OF True "1.prems"]
      by (simp add: hash_loop.simps [of data n i h] d t)
  next
    case False
    then show ?thesis by (simp add: hash_loop.simps [of data n i h])
  qed
qed

lemma hashBytecode_checksum:
  "n \<le> length data \<Longrightarrow> hashBytecode data n = checksum (take n data)"
  by (simp add: hashBytecode_def checksum_def hash_loop_eq)

lemma length_header_bytes: "length (header_bytes h) = 12"
  by (simp add: header_bytes_def le32_def)

lemma length_le32: "length (le32 w) = 4"
  by (simp add: le32_def)

lemma drop_header_bytes: "drop 12 (header_bytes h @ p) = p"
  by (simp add: length_header_bytes)

lemma assemble_eq:
  "assemble p =
     [0x02, 0x00, 0x08, 0x08]
       @ le32 (checksum (take (unat (of_nat (length p) :: 32 word)) p))
       @ le32 (of_nat (length p)) @ p"
proof -
  have "unat (of_nat (length p) :: 32 word) \<le> length p"
    by (simp add: unat_of_nat)
  then show ?thesis
    by (simp add: assemble_def update_header_def sizeof_header_def length_header_bytes
        drop_header_bytes hashBytecode_checksum Let_def)
      (simp add: header_bytes_def header_init_def)
qed

lemma writeVarInt_Cons: "writeVarInt v (x # xs) = x # xs @ writeVarInt v []"
  using writeVarInt_append [of v "x # xs"] by simp

lemma writeVarInt_app: "writeVarInt v (xs @ ys) = xs @ ys @ writeVarInt v []"
  using writeVarInt_append [of v "xs @ ys"] by simp

lemmas build_simps =
  Let_def header_bytes_def header_init_def le32_def writeVarInt_Cons writeVarInt_app
  writeVarInt_0 writeVarInt_1 write_double_bits_eq

lemma assemble_unfold:
  "assemble p = update_header header_init ([0x02, 0x00, 0x08, 0x08, 0, 0, 0, 0, 0, 0, 0, 0] @ p)"
  by (simp add: assemble_def header_bytes_def header_init_def le32_def)

lemma CreatePushNil_shape:
  "CreatePushNil = assemble [0, 1, 0, 0, 1, 0, 1, encodeOpcode LOP_LOADNIL, 0, 0, 0, 0, 0, 0, 0]"
  by (simp add: CreatePushNil_def assemble_unfold build_simps)

lemma CreatePushBoolean_shape:
  "CreatePushBoolean v =
     assemble [0, 1, 1, 0, 0, 0, 1, encodeOpcode LOP_LOADB, 0, if v then 1 else 0, 0,
               0, 0, 0, 0, 0, 0]"
  by (simp add: CreatePushBoolean_def assemble_unfold build_simps)

lemma CreatePushNumber_shape:
  "CreatePushNumber v =
     assemble ([1, LBC_CONSTANT_NUMBER, ucast v, ucast (drop_bit 8 v), ucast (drop_bit 16 v),
       ucast (drop_bit 24 v), ucast (drop_bit 32 v), ucast (drop_bit 40 v),
       ucast (drop_bit 48 v), ucast (drop_bit 56 v)]
       @ [1, 1, 0, 0, 0, 1, encodeOpcode LOP_LOADN, 0, 0, 1, 0, 0, 0, 0, 0])"
  by (simp add: CreatePushNumber_def assemble_unfold build_simps)

lemma CreatePushString_shape:
  "CreatePushString v =
     assemble ([1, LBC_CONSTANT_STRING] @ writeVarInt (of_nat (length v)) [] @ v
       @ [1, 1, 0, 0, 0, 1, encodeOpcode LOP_LOADK, 0, 0, 1, 0, 0, 0, 0, 0])"
  by (simp add: CreatePushString_def assemble_unfold build_simps)

lemma CreatePushTable_shape:
  "CreatePushTable a h =
     assemble [0, 1, 1, 0, 0, 0, 1, encodeOpcode LOP_NEWTABLE, 0,
               word_of_int (a AND 0xFF), word_of_int (h AND 0xFF), 0, 0, 0, 0, 0, 0]"
  by (simp add: CreatePushTable_def assemble_unfold build_simps)

lemma foldl_append_concat:
  "(\<And>acc x. f acc x = acc @ g x) \<Longrightarrow> foldl f acc xs = acc @ concat (map g xs)"
  by (induction xs arbitrary: acc) simp_all

lemma write_string_constant_eq: "write_string_constant bc v = bc @ string_entry v"
  by (simp add: write_string_constant_def string_entry_def Let_def writeVarInt_app)

lemma write_number_constant_eq: "write_number_constant bc v = bc @ number_entry v"
  by (simp add: write_number_constant_def number_entry_def Let_def write_double_bits_eq)

lemma write_boolean_constant_eq: "write_boolean_constant bc b = bc @ boolean_entry b"
  by (simp add: write_boolean_constant_def boolean_entry_def Let_def)

lemma foldl_string_constants:
  "foldl write_string_constant bc vs = bc @ concat (map string_entry vs)"
  by (rule foldl_append_concat) (rule write_string_constant_eq)

lemma foldl_number_constants:
  "foldl write_number_constant bc vs = bc @ concat (map number_entry vs)"
  by (rule foldl_append_concat) (rule write_number_constant_eq)

lemma foldl_boolean_constants:
  "foldl write_boolean_constant bc vs = bc @ concat (map boolean_entry vs)"
  by (rule foldl_append_concat) (rule write_boolean_constant_eq)

lemma foldl_append_fun: "foldl (\<lambda>acc x. acc @ g x) acc xs = acc @ concat (map g xs)"
  by (rule foldl_append_concat) simp

lemma CreatePushArray_shape:
  "values \<noteq> [] \<Longrightarrow> CreatePushArray values =
     assemble (writeVarInt (of_nat (length values)) [] @ concat (map string_entry values)
       @ [1] @ writeVarInt (of_nat (1 + length values)) [] @ [0, 0, 0]
       @ writeVarInt (of_nat (length values + 2)) []
       @ [encodeOpcode LOP_NEWTABLE, 0, of_nat (length values), 0]
       @ concat (map (\<lambda>i. [encodeOpcode LOP_LOADK, of_nat (i + 1), of_nat i]) [0..<length values])
       @ [encodeOpcode LOP_SETLIST, 0, of_nat (length values), 0]
       @ writeVarInt (of_nat (length values)) [] @ [0, 0, 0, 0, 0])"
  by (simp add: CreatePushArray_def assemble_unfold build_simps foldl_string_constants foldl_append_fun)

lemma load_step_prefix:
  "load_step c (bc, a, b, d) i =
     (case load_step c ([], a, b, d) i of (zs, r) \<Rightarrow> (bc @ zs, r))"
  by (simp add: load_step_def)

lemma foldl_load_step_prefix:
  "fst (foldl (load_step c) (bc, a, b, d) is)
     = bc @ fst (foldl (load_step c) ([], a, b, d) is)"
proof (induction "is" arbitrary: bc a b d)
  case Nil
  show ?case by simp
next
  case (Cons i "is")
  obtain zs a' b' d' where st: "load_step c ([], a, b, d) i = (zs, a', b', d')"
    by (metis prod_cases4)
  have st': "load_step c (bc, a, b, d) i = (bc @ zs, a', b', d')"
    by (simp add: load_step_prefix [of c bc] st)
  show ?case
    using Cons.IH [of "bc @ zs" a' b' d'] Cons.IH [of zs a' b' d']
    by (simp add: st st')
qed

lemma foldl_load_step_Cons:
  "fst (foldl (load_step c) (x # xs, a, b, d) is)
     = x # xs @ fst (foldl (load_step c) ([], a, b, d) is)"
  using foldl_load_step_prefix [of c "x # xs"] by simp

lemma CreatePushMultiple_shape:
  "values \<noteq> [] \<Longrightarrow> CreatePushMultiple strtod values =
     (let c = classify strtod values;
          total = (of_nat (length (numbers c) + length (booleans c) + length (strings c)) :: 32 word)
      in assemble (writeVarInt total []
           @ concat (map number_entry (numbers c))
           @ concat (map boolean_entry (booleans c))
           @ concat (map string_entry (strings c))
           @ [1] @ writeVarInt (of_nat (length values)) [] @ [0, 0, 0]
           @ writeVarInt (of_nat (length values)) []
           @ fst (foldl (load_step c) ([], 0, 0, 0) [0..<length values])
           @ writeVarInt total [] @ [0, 0, 0, 0, 0]))"
  by (simp add: CreatePushMultiple_def assemble_unfold build_simps foldl_string_constants
      foldl_number_constants foldl_boolean_constants foldl_load_step_Cons)

lemma foldl_fst_append:
  "fst (foldl (\<lambda>(r, c) x. (r @ g x, h x c)) (r0, c0) xs) = r0 @ concat (map g xs)"
  by (induction xs arbitrary: r0 c0) simp_all

lemma Compiler_compile_shape:
  "fst (Compiler_compile cmp) =
     assemble (concat (map (\<lambda>num. [LBC_CONSTANT_NUMBER]) (numberConstants cmp))
       @ concat (map (\<lambda>b. [LBC_CONSTANT_BOOLEAN, if b then 1 else 0]) (boolConstants cmp))
       @ concat (map (\<lambda>str. LBC_CONSTANT_STRING # str) (constants cmp)))"
proof -
  let ?c1 = "Compiler_writeVarInt
               (of_nat (length (constants cmp) + length (numberConstants cmp)
                  + length (boolConstants cmp))) cmp"
  let ?r0 = "header_bytes header_init"
  let ?s1 = "foldl (\<lambda>(result, cmp) num.
                      (result @ [LBC_CONSTANT_NUMBER], Compiler_writeDouble num cmp))
               (?r0, ?c1) (numberConstants cmp)"
  let ?r2 = "foldl (\<lambda>result b. (result @ [LBC_CONSTANT_BOOLEAN]) @ [if b then 0x01 else 0x00])
               (fst ?s1) (boolConstants cmp)"
  let ?s3 = "foldl (\<lambda>(result, cmp) str.
                      (result @ LBC_CONSTANT_STRING # str,
                       Compiler_writeVarInt (of_nat (length str)) cmp))
               (?r2, snd ?s1) (constants cmp)"
  have f: "numberConstants (Compiler_writeVarInt v c) = numberConstants c"
    "boolConstants (Compiler_writeVarInt v c) = boolConstants c"
    "constants (Compiler_writeVarInt v c) = constants c" for v c
    by (simp_all add: Compiler_writeVarInt_def)
  have keep: "numberConstants (snd (foldl (\<lambda>(result, cmp) num.
                      (result @ [LBC_CONSTANT_NUMBER], Compiler_writeDouble num cmp)) (r, c) xs))
                = numberConstants c
              \<and> boolConstants (snd (foldl (\<lambda>(result, cmp) num.
                      (result @ [LBC_CONSTANT_NUMBER], Compiler_writeDouble num cmp)) (r, c) xs))
                = boolConstants c
              \<and> constants (snd (foldl (\<lambda>(result, cmp) num.
                      (result @ [LBC_CONSTANT_NUMBER], Compiler_writeDouble num cmp)) (r, c) xs))
                = constants c" for r c xs
    by (induction xs arbitrary: r c) (simp_all add: Compiler_writeDouble_def)
  have r1: "fst ?s1 = ?r0 @ concat (map (\<lambda>num. [LBC_CONSTANT_NUMBER]) (numberConstants cmp))"
    by (rule foldl_fst_append)
  have r2: "?r2 = fst ?s1
              @ concat (map (\<lambda>b. [LBC_CONSTANT_BOOLEAN, if b then 1 else 0]) (boolConstants cmp))"
    by (rule foldl_append_concat) simp
  have r3: "fst ?s3 = ?r2 @ concat (map (\<lambda>str. LBC_CONSTANT_STRING # str) (constants cmp))"
    by (rule foldl_fst_append)
  have e: "fst (Compiler_compile cmp) = update_header header_init (fst ?s3)"
    by (simp add: Compiler_compile_def Let_def split_beta f keep)
  show ?thesis
    unfolding e unfolding r3 unfolding r2 unfolding r1 assemble_def by simp
qed

lemma run_call_assemble: "run_call strtod c = Inr b \<Longrightarrow> \<exists>p. b = assemble p"
proof (cases c)
  case (CallPushArray vs)
  assume "run_call strtod c = Inr b"
  then show ?thesis
    using CallPushArray CreatePushArray_shape [of vs] CreatePushTable_shape [of 0 0]
    by (cases "vs = []") (auto simp: CreatePushArray_def)
next
  case (CallPushMultiple vs)
  assume "run_call strtod c = Inr b"
  then show ?thesis
    using CallPushMultiple CreatePushMultiple_shape [of vs strtod] CreatePushNil_shape
    by (cases "vs = []") (auto simp: CreatePushMultiple_def Let_def)
next
  case (CallCompile source)
  assume "run_call strtod c = Inr b"
  then show ?thesis
    using CallCompile CreatePushNil_shape CreatePushBoolean_shape CreatePushNumber_shape
      CreatePushString_shape
    by (auto simp: Compile_def Let_def substr_def substr_n_def split: if_splits sum.splits)
qed (auto simp: CreatePushNil_shape CreatePushBoolean_shape CreatePushNumber_shape
      CreatePushString_shape CreatePushTable_shape CreatePushVector2_def CreatePushVector3_def
      Compiler_compile_shape)

section \<open>The opcode transform and the size hints of a table\<close>

lemma word_of_int_and_255: "(word_of_int (a AND 255) :: byte) = word_of_int a"
proof -
  have "(255::int) = mask 8" by (simp add: mask_eq_exp_minus_1)
  then have "a AND 255 = take_bit 8 a" by (simp add: take_bit_eq_mask)
  then show ?thesis by (simp add: word_of_int_eq_iff)
qed

lemma word_of_int_mod_256: "(word_of_int (a mod 256) :: byte) = word_of_int a"
proof -
  have "a mod 256 = take_bit 8 a" by (simp add: take_bit_eq_mod)
  then show ?thesis by (simp add: word_of_int_eq_iff)
qed

lemma word_of_int_smod_256: "(word_of_int (a smod 256) :: byte) = word_of_int a"
proof -
  have "take_bit 8 (a smod 256) = take_bit 8 a"
    by (simp add: signed_modulo_int_eq_modulo_int take_bit_eq_mod of_bool_def mod_diff_left_eq)
  then show ?thesis by (simp add: word_of_int_eq_iff)
qed

lemma encodeOpcode_mult: "encodeOpcode x = x * 227"
  by (simp add: encodeOpcode_def word_of_int_and_255)

lemma inverse_227: "(203 * 227 :: byte) = 1"
  by simp

lemma decode_encode: "203 * encodeOpcode x = x"
proof -
  have "203 * encodeOpcode x = (203 * 227) * x"
    by (simp only: encodeOpcode_mult mult_ac)
  also have "\<dots> = x" by (simp only: inverse_227 mult_1)
  finally show ?thesis .
qed

lemma encode_decode: "encodeOpcode (203 * x) = x"
proof -
  have "encodeOpcode (203 * x) = (203 * 227) * x"
    by (simp only: encodeOpcode_mult mult_ac)
  also have "\<dots> = x" by (simp only: inverse_227 mult_1)
  finally show ?thesis .
qed

text \<open>
  Claim C7. The opcode transform \<open>f(x) = (x * 227) mod 256\<close>, which \<open>encodeOpcode\<close>
  computes, is a bijection on the bytes: two opcodes have the same image only if they
  are equal, and multiplying by 203, the inverse of 227 modulo 256, undoes it on either
  side.
\<close>

theorem C7_encodeOpcode_bijection:
  "(encodeOpcode x = encodeOpcode y) = (x = y)
   \<and> 203 * encodeOpcode x = x
   \<and> encodeOpcode (203 * x) = x
   \<and> unat (encodeOpcode x) = (unat x * 227) mod 256
   \<and> bij encodeOpcode"
proof -
  have inj: "(encodeOpcode a = encodeOpcode b) = (a = b)" for a b
    by (metis decode_encode)
  have right: "encodeOpcode (203 * a) = a" for a
    by (rule encode_decode)
  have val: "unat (encodeOpcode x) = (unat x * 227) mod 256"
    by (simp add: encodeOpcode_mult unat_word_ariths)
  have "bij encodeOpcode"
    by (rule bijI') (auto simp: inj intro: right [symmetric])
  with inj right decode_encode val show ?thesis by blast
qed

text \<open>
  Claim C10. \<^verbatim>\<open>CreatePushTable\<close> encodes only the low 8 bits of each size hint. The
  payload is the constant count 0, the function count 1, the proto fields 1, 0, 0, 0,
  the instruction count 1, the instruction \<^verbatim>\<open>NEWTABLE\<close> on register 0 with the two
  operand bytes, and six zero bytes; the operand byte at position 9 of the payload has
  the value \<open>arraySize mod 256\<close> and the one at position 10 the value
  \<open>hashSize mod 256\<close>. So the buffer for \<open>(arraySize, hashSize)\<close> is the buffer for the
  two values modulo 256, with the mathematical remainder as well as with the truncating
  remainder of C (\<open>smod\<close>); in particular \<^verbatim>\<open>CreatePushTable(256, 0)\<close> equals
  \<^verbatim>\<open>CreatePushTable(0, 0)\<close>, and two calls return the same buffer only if their hints
  agree modulo 256.
\<close>

theorem C10_CreatePushTable_low_bits:
  "drop sizeof_header (CreatePushTable arraySize hashSize)
     = [0, 1] @ [1, 0, 0, 0] @ [1]
         @ [encodeOpcode LOP_NEWTABLE, 0, word_of_int (arraySize mod 256),
            word_of_int (hashSize mod 256)]
         @ [0, 0, 0, 0, 0, 0]
   \<and> uint (drop sizeof_header (CreatePushTable arraySize hashSize) ! 9) = arraySize mod 256
   \<and> uint (drop sizeof_header (CreatePushTable arraySize hashSize) ! 10) = hashSize mod 256
   \<and> (CreatePushTable arraySize hashSize = CreatePushTable a h)
       = (arraySize mod 256 = a mod 256 \<and> hashSize mod 256 = h mod 256)
   \<and> CreatePushTable arraySize hashSize = CreatePushTable (arraySize mod 256) (hashSize mod 256)
   \<and> CreatePushTable arraySize hashSize = CreatePushTable (arraySize smod 256) (hashSize smod 256)
   \<and> CreatePushTable 256 0 = CreatePushTable 0 0"
proof -
  have p: "drop sizeof_header (CreatePushTable x y)
     = [0, 1] @ [1, 0, 0, 0] @ [1]
         @ [encodeOpcode LOP_NEWTABLE, 0, word_of_int (x mod 256), word_of_int (y mod 256)]
         @ [0, 0, 0, 0, 0, 0]" for x y
    by (simp add: CreatePushTable_shape assemble_eq sizeof_header_def le32_def
        word_of_int_and_255 word_of_int_mod_256)
  have u: "uint (word_of_int (x mod 256) :: byte) = x mod 256" for x
    by (simp add: uint_word_of_int take_bit_eq_mod)
  have a9: "uint (drop sizeof_header (CreatePushTable arraySize hashSize) ! 9) = arraySize mod 256"
    unfolding p by (simp add: u)
  have a10: "uint (drop sizeof_header (CreatePushTable arraySize hashSize) ! 10) = hashSize mod 256"
    unfolding p by (simp add: u)
  have same: "CreatePushTable x y = CreatePushTable (x mod 256) (y mod 256)
              \<and> CreatePushTable x y = CreatePushTable (x smod 256) (y smod 256)" for x y
    by (simp add: CreatePushTable_def word_of_int_and_255 word_of_int_mod_256 word_of_int_smod_256)
  have eq: "(CreatePushTable arraySize hashSize = CreatePushTable a h)
       = (arraySize mod 256 = a mod 256 \<and> hashSize mod 256 = h mod 256)"
  proof
    assume e: "CreatePushTable arraySize hashSize = CreatePushTable a h"
    have "uint (drop sizeof_header (CreatePushTable a h) ! 9) = a mod 256"
      "uint (drop sizeof_header (CreatePushTable a h) ! 10) = h mod 256"
      unfolding p by (simp_all add: u)
    with a9 a10 e show "arraySize mod 256 = a mod 256 \<and> hashSize mod 256 = h mod 256"
      by simp
  next
    assume "arraySize mod 256 = a mod 256 \<and> hashSize mod 256 = h mod 256"
    then show "CreatePushTable arraySize hashSize = CreatePushTable a h"
      using same [of arraySize hashSize] same [of a h] by simp
  qed
  have z: "CreatePushTable 256 0 = CreatePushTable 0 0"
    using same [of 256 0] by simp
  from p [of arraySize hashSize] a9 a10 eq same [of arraySize hashSize] z show ?thesis
    by blast
qed

section \<open>Decompress\<close>

text \<open>
  Claim C2 says that \<^verbatim>\<open>Decompress\<close> never fails and removes the first 20 bytes of every
  buffer of at least 16 bytes that starts with the magic \<^verbatim>\<open>RBX2\<close>. The guard of the code
  asks for 16 bytes, the signature it then skips has 20: on the 16-byte buffer made of
  the magic and twelve zero bytes \<^verbatim>\<open>substr(20)\<close> raises \<^verbatim>\<open>std::out_of_range\<close>.
\<close>

theorem C2_Decompress_short_signature:
  "Decompress (lit ''RBX2'' @ [0, 0, 0, 0, 0, 0, 0, 0, 0, 0, 0, 0]) = Inl OutOfRange"
  by (simp add: Decompress_def lit_def substr_def sizeof_RobloxSignature_def)

text \<open>What \<^verbatim>\<open>Decompress\<close> does on the other buffers: with the magic and at least 20
  bytes the signature is removed, with the magic and 16 to 19 bytes it raises, and
  everything else is returned as it is.\<close>

lemma magic_iff:
  "4 \<le> length b \<Longrightarrow>
     (take 4 b = lit ''RBX2'') =
     (b ! 0 = of_char CHR ''R'' \<and> b ! 1 = of_char CHR ''B''
        \<and> b ! 2 = of_char CHR ''X'' \<and> b ! 3 = of_char CHR ''2'')"
proof -
  assume len: "4 \<le> length b"
  have t: "take 4 b = [b ! 0, b ! 1, b ! 2, b ! 3]"
    using len by (intro nth_equalityI) (auto simp: nth_Cons numeral_2_eq_2 numeral_3_eq_3 split: nat.splits)
  show ?thesis by (simp add: t lit_def)
qed

lemma Decompress_signed:
  "20 \<le> length b \<Longrightarrow> take 4 b = lit ''RBX2'' \<Longrightarrow> Decompress b = Inr (drop 20 b)"
  using magic_iff [of b]
  by (simp add: Decompress_def substr_def sizeof_RobloxSignature_def)

lemma Decompress_short_signed:
  "16 \<le> length b \<Longrightarrow> length b < 20 \<Longrightarrow> take 4 b = lit ''RBX2''
     \<Longrightarrow> Decompress b = Inl OutOfRange"
  using magic_iff [of b]
  by (simp add: Decompress_def substr_def sizeof_RobloxSignature_def)

lemma Decompress_unsigned:
  "length b < 16 \<or> take 4 b \<noteq> lit ''RBX2'' \<Longrightarrow> Decompress b = Inr b"
  using magic_iff [of b]
  by (auto simp: Decompress_def)

section \<open>The stack size of CreatePushNil\<close>

text \<open>
  Claim C3 says that the \<^verbatim>\<open>maxstacksize\<close> of every proto the builders encode is at least
  the highest register used plus 1. The payload of \<^verbatim>\<open>CreatePushNil\<close> is, in order: the
  constant count 0 and the function count 1; then \<^verbatim>\<open>maxstacksize\<close> 0, \<^verbatim>\<open>numparams\<close> 0,
  \<^verbatim>\<open>numupvalues\<close> 1, \<^verbatim>\<open>is_vararg\<close> 0; the instruction count 1; the instruction
  \<^verbatim>\<open>LOADNIL\<close> on register 0; and six zero bytes of sizes and debug information. So the
  proto uses register 0 with a \<^verbatim>\<open>maxstacksize\<close> of 0, where every other builder writes
  \<^verbatim>\<open>maxstacksize\<close> 1 and \<^verbatim>\<open>numupvalues\<close> 0.
\<close>

theorem C3_CreatePushNil_maxstacksize:
  "drop sizeof_header CreatePushNil =
     [0, 1] @ [0, 0, 1, 0] @ [1] @ [encodeOpcode LOP_LOADNIL, 0] @ [0, 0, 0, 0, 0, 0]"
  by (simp add: CreatePushNil_shape assemble_eq sizeof_header_def le32_def)

text \<open>The same fields in the payloads of \<^verbatim>\<open>CreatePushBoolean\<close> and \<^verbatim>\<open>CreatePushTable\<close>,
  whose single instruction also writes register 0: \<^verbatim>\<open>maxstacksize\<close> 1 and
  \<^verbatim>\<open>numupvalues\<close> 0.\<close>

lemma sibling_builders_maxstacksize:
  "drop sizeof_header (CreatePushBoolean v) =
     [0, 1] @ [1, 0, 0, 0] @ [1] @ [encodeOpcode LOP_LOADB, 0, if v then 1 else 0, 0]
       @ [0, 0, 0, 0, 0, 0]"
  "drop sizeof_header (CreatePushTable a h) =
     [0, 1] @ [1, 0, 0, 0] @ [1]
       @ [encodeOpcode LOP_NEWTABLE, 0, word_of_int (a AND 0xFF), word_of_int (h AND 0xFF)]
       @ [0, 0, 0, 0, 0, 0]"
  by (simp_all add: CreatePushBoolean_shape CreatePushTable_shape assemble_eq sizeof_header_def
      le32_def)

section \<open>The header of an assembled module\<close>

lemma length_assemble: "length (assemble p) = 12 + length p"
  by (simp add: assemble_eq length_le32)

lemma drop_assemble: "drop 12 (assemble p) = p"
  by (simp add: assemble_eq length_le32)

lemma read_le32_at: "length a = n \<Longrightarrow> read_le32 (a @ le32 w @ b) n = w"
  using read_le32_le32 [of a w b] by simp

lemma header_of_assemble:
  "header_of (assemble p) =
     \<lparr>version = 0x02, flags = 0x00, typesize = 0x08, numbersize = 0x08,
      hash = checksum (take (unat (of_nat (length p) :: 32 word)) p),
      size_field = of_nat (length p)\<rparr>"
proof -
  let ?h = "checksum (take (unat (of_nat (length p) :: 32 word)) p)"
  let ?s = "of_nat (length p) :: 32 word"
  have a: "assemble p = [0x02, 0x00, 0x08, 0x08] @ le32 ?h @ (le32 ?s @ p)"
    by (simp add: assemble_eq)
  have b: "assemble p = ([0x02, 0x00, 0x08, 0x08] @ le32 ?h) @ le32 ?s @ p"
    by (simp add: assemble_eq)
  have h: "read_le32 (assemble p) 4 = ?h"
    unfolding a by (rule read_le32_at) simp
  have s: "read_le32 (assemble p) 8 = ?s"
    unfolding b by (rule read_le32_at) (simp add: length_le32)
  have v: "assemble p ! 0 = 2" "assemble p ! 1 = 0" "assemble p ! 2 = 8" "assemble p ! 3 = 8"
    unfolding a by simp_all
  show ?thesis unfolding header_of_def h s v by simp
qed

lemma unat_of_nat_length: "length p < 2 ^ 32 \<Longrightarrow> unat (of_nat (length p) :: 32 word) = length p"
  by (simp add: unat_of_nat)

lemma ValidateBytecode_assemble: "ValidateBytecode (assemble p) = (length p < 2 ^ 32)"
proof (cases "length p < 2 ^ 32")
  case True
  then show ?thesis
    by (simp add: ValidateBytecode_def header_of_assemble length_assemble drop_assemble
        sizeof_header_def unat_of_nat_length hashBytecode_checksum Let_def)
next
  case False
  have "unat (of_nat (length p) :: 32 word) < 2 ^ 32"
    using unsigned_less [of "of_nat (length p) :: 32 word"] by simp
  then have "unat (of_nat (length p) :: 32 word) \<noteq> length p"
    using False by linarith
  then show ?thesis
    using False
    by (simp add: ValidateBytecode_def header_of_assemble length_assemble drop_assemble
        sizeof_header_def Let_def)
qed


lemma encoded_opcodes:
  "encodeOpcode LOP_LOADNIL = 227" "encodeOpcode LOP_LOADB = 198" "encodeOpcode LOP_LOADN = 169"
  "encodeOpcode LOP_LOADK = 140" "encodeOpcode LOP_NEWTABLE = 231" "encodeOpcode LOP_SETLIST = 173"
  by (simp_all add: encodeOpcode_mult LOP_LOADNIL_def LOP_LOADB_def LOP_LOADN_def LOP_LOADK_def
      LOP_NEWTABLE_def LOP_SETLIST_def)

lemma CreatePushNil_bytes:
  "CreatePushNil = [2, 0, 8, 8, 0xA5, 0xB0, 0xB3, 0xDF, 15, 0, 0, 0,
                    0, 1, 0, 0, 1, 0, 1, 227, 0, 0, 0, 0, 0, 0, 0]"
  by (simp add: CreatePushNil_shape assemble_eq encoded_opcodes checksum_def le32_def)

text \<open>
  Claim C1, as amended. The claim puts \<^verbatim>\<open>size\<close> at the byte offsets 4 to 7 and
  \<^verbatim>\<open>hash\<close> at 8 to 11; the packed struct of the code declares \<^verbatim>\<open>hash\<close> before
  \<^verbatim>\<open>size\<close>. What holds: every buffer the encoder returns consists of the bytes
  \<^verbatim>\<open>version\<close>, \<^verbatim>\<open>flags\<close>, \<^verbatim>\<open>typesize\<close>, \<^verbatim>\<open>numbersize\<close> (2, 0, 8, 8), then \<^verbatim>\<open>hash\<close> at
  the offsets 4 to 7, then \<^verbatim>\<open>size\<close> at the offsets 8 to 11, both little-endian, then the
  payload from offset 12 on, with no padding; \<^verbatim>\<open>size\<close> is the length of the payload as a
  32-bit value and \<^verbatim>\<open>hash\<close> is the checksum of the first \<^verbatim>\<open>size\<close> bytes of the payload.
\<close>

theorem C1_header_layout:
  "run_call strtod c = Inr b \<Longrightarrow>
     (let payload = drop 12 b; sz = (of_nat (length payload) :: 32 word)
      in b = [0x02, 0x00, 0x08, 0x08] @ le32 (checksum (take (unat sz) payload)) @ le32 sz @ payload)"
proof -
  assume "run_call strtod c = Inr b"
  then obtain p where bp: "b = assemble p" using run_call_assemble by blast
  have d: "drop 12 b = p" by (simp only: bp drop_assemble)
  have e: "b = [0x02, 0x00, 0x08, 0x08]
              @ le32 (checksum (take (unat (of_nat (length p) :: 32 word)) p))
              @ le32 (of_nat (length p)) @ p"
    by (simp only: bp assemble_eq)
  show ?thesis unfolding Let_def d by (rule e)
qed

text \<open>The layout on the buffer of \<^verbatim>\<open>CreatePushNil\<close>.\<close>

theorem C1_header_layout_witness:
  "run_call (\<lambda>s. (0, 0)) CallPushNil = Inr CreatePushNil
   \<and> (let payload = drop 12 CreatePushNil; sz = (of_nat (length payload) :: 32 word)
      in CreatePushNil
           = [0x02, 0x00, 0x08, 0x08] @ le32 (checksum (take (unat sz) payload)) @ le32 sz @ payload)"
  using C1_header_layout [of "\<lambda>s. (0, 0)" CallPushNil CreatePushNil] by simp

text \<open>
  Claim C1 as stated fails on the buffer of \<^verbatim>\<open>CreatePushNil\<close>: the four bytes at the
  offsets 4 to 7 are not the length of the payload (15), and the four bytes at the
  offsets 8 to 11 are not the checksum of the payload.
\<close>

theorem C1_size_before_hash_counterexample:
  "read_le32 CreatePushNil 4 \<noteq> of_nat (length CreatePushNil - 12)
   \<and> read_le32 CreatePushNil 8 \<noteq> checksum (drop 12 CreatePushNil)"
  by (simp add: CreatePushNil_bytes read_le32_def checksum_def)


text \<open>
  Claim C5, as amended. For every buffer the encoder returns whose payload is shorter
  than \<open>2 ^ 32\<close> bytes, \<^verbatim>\<open>header.size\<close> is the length of the buffer minus the size of the
  header, and \<^verbatim>\<open>header.hash\<close> is the checksum of the payload: the FNV-1a variant of the
  specification (\<open>checksum\<close>), which is what \<^verbatim>\<open>hashBytecode\<close> computes over the payload.
\<close>

theorem C5_size_and_hash:
  assumes "run_call strtod c = Inr b" and "length b - sizeof_header < 2 ^ 32"
  shows "unat (size_field (header_of b)) = length b - sizeof_header
         \<and> hash (header_of b) = checksum (drop sizeof_header b)
         \<and> hash (header_of b) = hashBytecode (drop sizeof_header b) (length b - sizeof_header)"
proof -
  from assms(1) obtain p where bp: "b = assemble p" using run_call_assemble by blast
  have len: "length p < 2 ^ 32"
    using assms(2) by (simp add: bp length_assemble sizeof_header_def)
  show ?thesis
    by (simp add: bp header_of_assemble length_assemble drop_assemble sizeof_header_def
        unat_of_nat_length [OF len] hashBytecode_checksum)
qed

text \<open>The two equations on the buffer of \<^verbatim>\<open>CreatePushBoolean(true)\<close>.\<close>

theorem C5_size_and_hash_witness:
  "run_call (\<lambda>s. (0, 0)) (CallPushBoolean True) = Inr (CreatePushBoolean True)
   \<and> length (CreatePushBoolean True) - sizeof_header < 2 ^ 32
   \<and> unat (size_field (header_of (CreatePushBoolean True)))
       = length (CreatePushBoolean True) - sizeof_header
   \<and> hash (header_of (CreatePushBoolean True))
       = checksum (drop sizeof_header (CreatePushBoolean True))"
proof -
  have r: "run_call (\<lambda>s. (0, 0)) (CallPushBoolean True) = Inr (CreatePushBoolean True)"
    by simp
  have l: "length (CreatePushBoolean True) - sizeof_header < 2 ^ 32"
    by (simp add: CreatePushBoolean_shape length_assemble sizeof_header_def)
  show ?thesis using C5_size_and_hash [OF r l] r l by simp
qed

text \<open>\<^verbatim>\<open>header.size\<close> is a \<^verbatim>\<open>uint32_t\<close>: behind a payload of \<open>2 ^ 32\<close> bytes or more it
  holds the length modulo \<open>2 ^ 32\<close>.\<close>

lemma length_CreatePushString:
  "length (CreatePushString v) = length v + length (writeVarInt (of_nat (length v)) []) + 29"
  by (simp add: CreatePushString_shape length_assemble)

lemma size_field_CreatePushString:
  "size_field (header_of (CreatePushString v))
     = of_nat (length v + length (writeVarInt (of_nat (length v)) []) + 17)"
  by (simp add: CreatePushString_shape header_of_assemble)

lemma size_field_too_small:
  "2 ^ 32 \<le> length v \<Longrightarrow>
     unat (size_field (header_of (CreatePushString v))) \<noteq> length (CreatePushString v) - sizeof_header"
proof -
  assume big: "2 ^ 32 \<le> length v"
  have "unat (size_field (header_of (CreatePushString v))) < 2 ^ 32"
    using unsigned_less [of "size_field (header_of (CreatePushString v))"] by simp
  moreover have "2 ^ 32 \<le> length (CreatePushString v) - sizeof_header"
    using big by (simp add: length_CreatePushString sizeof_header_def)
  ultimately show ?thesis by linarith
qed

text \<open>
  Claim C5 as stated fails for \<^verbatim>\<open>CreatePushString\<close> on a string of \<open>2 ^ 32\<close> zero bytes:
  the \<^verbatim>\<open>size\<close> field of the header is not the length of the buffer minus the size of
  the header.
\<close>

theorem C5_truncated_size_counterexample:
  "unat (size_field (header_of (CreatePushString (replicate 4294967296 0))))
     \<noteq> length (CreatePushString (replicate 4294967296 0)) - sizeof_header"
  by (rule size_field_too_small) (simp only: length_replicate, simp)

section \<open>Validation of the buffers of the literal builders\<close>

lemma writeVarInt_rec:
  "writeVarInt v [] =
     (if drop_bit 7 v = 0 then [ucast (v AND 0x7F)]
      else (ucast (v AND 0x7F) OR 0x80) # writeVarInt (drop_bit 7 v) [])"
  by (simp add: writeVarInt.simps [of v "[]"] Let_def writeVarInt_Cons)

lemma length_writeVarInt_bound:
  "unat v < 2 ^ (7 * Suc k) \<Longrightarrow> length (writeVarInt v []) \<le> Suc k"
proof (induction k arbitrary: v)
  case 0
  then have "unat (drop_bit 7 v) = 0"
    by (simp add: unat_drop_bit_eq drop_bit_eq_div unat_div)
  then have "drop_bit 7 v = 0" by (simp add: unat_eq_0)
  then show ?case by (simp add: writeVarInt_rec [of v])
next
  case (Suc k)
  have "unat (drop_bit 7 v) = unat v div 2 ^ 7"
    by (simp add: unat_drop_bit_eq drop_bit_eq_div unat_div)
  moreover have "unat v div 2 ^ 7 < 2 ^ (7 * Suc k)"
    using Suc.prems by (simp add: less_mult_imp_div_less power_add)
  ultimately have "length (writeVarInt (drop_bit 7 v) []) \<le> Suc k"
    using Suc.IH [of "drop_bit 7 v"] by simp
  then show ?case by (simp add: writeVarInt_rec [of v])
qed

lemma length_writeVarInt_le_5: "length (writeVarInt v []) \<le> 5"
proof -
  have "unat v < 2 ^ 32" using unsigned_less [of v] by simp
  also have "(2 :: nat) ^ 32 \<le> 2 ^ (7 * Suc 4)" by simp
  finally show ?thesis using length_writeVarInt_bound [of v 4] by simp
qed

lemma ValidateBytecode_CreatePushString:
  "ValidateBytecode (CreatePushString s)
     = (length s + length (writeVarInt (of_nat (length s)) []) + 17 < 2 ^ 32)"
  by (simp add: CreatePushString_shape ValidateBytecode_assemble add.commute)

text \<open>
  Claim C4, as amended. \<^verbatim>\<open>ValidateBytecode\<close> returns true on the buffers of
  \<^verbatim>\<open>CreatePushNil\<close>, of \<^verbatim>\<open>CreatePushBoolean\<close> and \<^verbatim>\<open>CreatePushNumber\<close> for every
  argument, and of \<^verbatim>\<open>CreatePushString\<close> for every string shorter than \<open>2 ^ 32 - 22\<close>
  bytes.
\<close>

theorem C4_builders_validate:
  "ValidateBytecode CreatePushNil
   \<and> ValidateBytecode (CreatePushBoolean v)
   \<and> ValidateBytecode (CreatePushNumber n)
   \<and> (length s < 4294967274 \<longrightarrow> ValidateBytecode (CreatePushString s))"
proof -
  have "length s < 4294967274 \<Longrightarrow> ValidateBytecode (CreatePushString s)"
    using length_writeVarInt_le_5 [of "of_nat (length s)"]
    by (simp add: CreatePushString_shape ValidateBytecode_assemble)
  then show ?thesis
    by (simp add: CreatePushNil_shape CreatePushBoolean_shape CreatePushNumber_shape
        ValidateBytecode_assemble)
qed

text \<open>The string \<^verbatim>\<open>hi\<close> is short enough, and its buffer validates.\<close>

theorem C4_builders_validate_witness:
  "length (lit ''hi'') < 4294967274 \<and> ValidateBytecode (CreatePushString (lit ''hi''))"
  using C4_builders_validate [of True 0 "lit ''hi''"] by (simp add: lit_def)

text \<open>
  Claim C4 as stated fails for \<^verbatim>\<open>CreatePushString\<close> on a string of \<open>2 ^ 32\<close> zero bytes:
  the validator compares the 32-bit \<^verbatim>\<open>size\<close> field with the real length of the payload
  and returns false.
\<close>

theorem C4_huge_string_counterexample:
  "\<not> ValidateBytecode (CreatePushString (replicate 4294967296 0))"
proof -
  have "\<not> length (CreatePushString (replicate 4294967296 0)) - 12 < 2 ^ 32"
    by (simp only: length_CreatePushString length_replicate) simp
  then show ?thesis
    by (simp only: CreatePushString_shape ValidateBytecode_assemble length_assemble)
qed

section \<open>The buffer of CreatePushNumber(3.14159)\<close>

lemma pi_bits_value: "double_value 0x400921F9F01B866E = 7074231776675438 / 2 ^ 51"
  by (simp add: double_value_def Let_def)

text \<open>
  Claim C8. \<open>0x400921F9F01B866E\<close> is the double nearest to 3.14159 (its value is within
  half a unit in the last place, \<open>2 ^ -52\<close>, of it), so it is the argument of
  \<^verbatim>\<open>CreatePushNumber(3.14159)\<close>. The buffer has \<^verbatim>\<open>version\<close> 2; its payload is the
  constant count 1, one constant with the tag \<^verbatim>\<open>LBC_CONSTANT_NUMBER\<close> and the eight bytes
  of the double in little-endian order, the function count 1, the proto fields
  1, 0, 0, 0, the instruction count 1, the one instruction \<^verbatim>\<open>LOADN\<close> into register 0
  from constant 0, and \<^verbatim>\<open>sizeK\<close> 1 followed by five zero bytes; and \<^verbatim>\<open>ValidateBytecode\<close>
  returns true on it.
\<close>

theorem C8_CreatePushNumber_pi:
  "version (header_of (CreatePushNumber 0x400921F9F01B866E)) = 2
   \<and> drop sizeof_header (CreatePushNumber 0x400921F9F01B866E)
       = [1] @ [LBC_CONSTANT_NUMBER, 0x6E, 0x86, 0x1B, 0xF0, 0xF9, 0x21, 0x09, 0x40]
           @ [1] @ [1, 0, 0, 0] @ [1] @ [encodeOpcode LOP_LOADN, 0, 0] @ [1, 0, 0, 0, 0, 0]
   \<and> ValidateBytecode (CreatePushNumber 0x400921F9F01B866E)
   \<and> \<bar>double_value 0x400921F9F01B866E - 314159 / 100000\<bar> \<le> 1 / 2 ^ 52"
proof -
  have v: "version (header_of (CreatePushNumber 0x400921F9F01B866E)) = 2"
    by (simp add: CreatePushNumber_shape header_of_assemble)
  have p: "drop sizeof_header (CreatePushNumber 0x400921F9F01B866E)
       = [1] @ [LBC_CONSTANT_NUMBER, 0x6E, 0x86, 0x1B, 0xF0, 0xF9, 0x21, 0x09, 0x40]
           @ [1] @ [1, 0, 0, 0] @ [1] @ [encodeOpcode LOP_LOADN, 0, 0] @ [1, 0, 0, 0, 0, 0]"
    by (simp add: CreatePushNumber_shape drop_assemble sizeof_header_def)
  have ok: "ValidateBytecode (CreatePushNumber 0x400921F9F01B866E)"
    by (simp add: CreatePushNumber_shape ValidateBytecode_assemble)
  have d: "\<bar>double_value 0x400921F9F01B866E - 314159 / 100000\<bar> \<le> 1 / 2 ^ 52"
    by (simp add: pi_bits_value abs_le_iff field_simps)
  from v p ok d show ?thesis by blast
qed

section \<open>Compile\<close>

lemma find_from_ge: "find_from s pat i = Some j \<Longrightarrow> i \<le> j"
  by (induction s arbitrary: i) (auto split: if_splits dest: Suc_leD)

lemma find_str_0: "(find_str s pat = Some 0) = (take (length pat) s = pat)"
proof (cases s)
  case Nil
  then show ?thesis by (auto simp: find_str_def)
next
  case (Cons c cs)
  then show ?thesis using find_from_ge [of cs pat "Suc 0" 0] by (auto simp: find_str_def)
qed

lemma length_return: "length (lit ''return '') = 7"
  by (simp add: lit_def)

lemma Compile_total: "\<exists>b. Compile strtod source = Inr b"
proof (cases "find_str source (lit ''return '') = Some 0")
  case True
  then have "take 7 source = lit ''return ''" by (simp add: find_str_0 length_return)
  then have "7 \<le> length source"
    by (metis length_return length_take min.cobounded1 min_def nat_le_linear take_all)
  then show ?thesis
    by (simp add: Compile_def substr_def substr_n_def Let_def)
next
  case False
  then show ?thesis by (simp add: Compile_def)
qed

lemma run_call_total: "\<exists>b. run_call strtod c = Inr b"
  using Compile_total [of strtod] by (cases c) simp_all






text \<open>The empty input and the input \<^verbatim>\<open>return\<close> without a literal, whatever \<^verbatim>\<open>strtod\<close>
  does.\<close>

lemma Compile_empty_and_partial:
  "Compile strtod [] = Inr CreatePushNil"
  "Compile strtod (lit ''return'') = Inr CreatePushNil"
  "Compile strtod (lit ''garbage'') = Inr CreatePushNil"
  by (simp_all add: Compile_def find_str_def lit_def)

section \<open>The constant pool and the loads of CreatePushMultiple\<close>

lemma lit_true_false: "lit ''true'' \<noteq> lit ''false''"
  by (simp add: lit_def)

lemma update_first_of_replicate:
  "k < n \<Longrightarrow> (xs @ replicate (n - k) False)[length xs := True] = xs @ True # replicate (n - Suc k) False"
  by (cases "n - k") (simp_all add: list_update_append Suc_diff_Suc)

lemma classify_step_classified:
  assumes "k < length vs"
  shows "classify_step strtod vs (classified strtod vs k) k = classified strtod vs (Suc k)"
proof -
  have t: "take (Suc k) vs = take k vs @ [vs ! k]"
    using assms by (simp add: take_Suc_conv_app_nth)
  have l: "length (map f (take k vs)) = k" for f :: "bytes \<Rightarrow> bool"
    using assms by simp
  have u: "(map f (take k vs) @ replicate (length vs - k) False)[k := True]
             = map f (take k vs) @ True # replicate (length vs - Suc k) False"
    for f :: "bytes \<Rightarrow> bool"
    using update_first_of_replicate [OF assms, of "map f (take k vs)"] by (simp only: l)
  have r: "replicate (length vs - k) False = False # replicate (length vs - Suc k) False"
    using assms by (cases "length vs - k") (simp_all add: Suc_diff_Suc)
  show ?thesis
    by (simp add: classify_step_def classified_def Let_def t u of_kind_def kind_of_def
        lit_true_false)
      (simp add: r)
qed

lemma classify_prefix:
  "k \<le> length vs \<Longrightarrow>
     foldl (classify_step strtod vs) (classified strtod vs 0) [0..<k] = classified strtod vs k"
proof (induction k)
  case 0
  show ?case by simp
next
  case (Suc k)
  then have "k < length vs" by simp
  then show ?case using Suc by (simp add: classify_step_classified)
qed

lemma classify_eq: "classify strtod vs = classified strtod vs (length vs)"
proof -
  have "classified strtod vs 0 =
     \<lparr>isNumber = replicate (length vs) False, isBool = replicate (length vs) False,
      numbers = [], booleans = [], strings = []\<rparr>"
    by (simp add: classified_def of_kind_def)
  then show ?thesis
    using classify_prefix [of "length vs" vs strtod] by (simp add: classify_def)
qed


lemma filter_split_at:
  assumes "i < length xs" and "P (xs ! i)"
  shows "filter P xs = filter P (take i xs) @ xs ! i # filter P (drop (Suc i) xs)"
proof -
  have "filter P xs = filter P (take i xs @ drop i xs)"
    by (simp only: append_take_drop_id)
  also have "\<dots> = filter P (take i xs) @ filter P (drop i xs)"
    by (simp only: filter_append)
  also have "drop i xs = xs ! i # drop (Suc i) xs"
    using assms(1) by (simp add: Cons_nth_drop_Suc)
  finally show ?thesis using assms(2) by simp
qed

lemma filter_nth_at_count:
  "i < length xs \<Longrightarrow> P (xs ! i) \<Longrightarrow> filter P xs ! length (filter P (take i xs)) = xs ! i"
  by (simp add: filter_split_at [of i xs P] nth_append)

lemma classify_fields:
  "isNumber (classify strtod vs) = map (\<lambda>v. kind_of strtod v = KNum) vs"
  "isBool (classify strtod vs) = map (\<lambda>v. kind_of strtod v = KBool) vs"
  "numbers (classify strtod vs) = map (\<lambda>v. fst (strtod (c_str v))) (of_kind strtod KNum vs)"
  "booleans (classify strtod vs) = map (\<lambda>v. v = lit ''true'') (of_kind strtod KBool vs)"
  "strings (classify strtod vs) = of_kind strtod KStr vs"
  by (simp_all add: classify_eq classified_def)

lemma boolean_at_index:
  assumes "i < length vs" and "kind_of strtod (vs ! i) = KBool"
  shows "booleans (classify strtod vs) ! length (of_kind strtod KBool (take i vs))
           = (vs ! i = lit ''true'')"
proof -
  have m: "length (of_kind strtod KBool (take i vs)) < length (of_kind strtod KBool vs)"
    unfolding of_kind_def
    using assms filter_split_at [of i vs "\<lambda>v. kind_of strtod v = KBool"] by simp
  have "of_kind strtod KBool vs ! length (of_kind strtod KBool (take i vs)) = vs ! i"
    unfolding of_kind_def using assms by (intro filter_nth_at_count) simp_all
  then show ?thesis using m by (simp add: classify_fields)
qed

lemma load_step_spec:
  assumes "i < length vs"
  shows "load_step (classify strtod vs)
           (bc, length (of_kind strtod KNum (take i vs)), length (of_kind strtod KBool (take i vs)),
            length (of_kind strtod KStr (take i vs))) i
         = (bc @ encode_instr (load_of strtod vs i),
            length (of_kind strtod KNum (take (Suc i) vs)),
            length (of_kind strtod KBool (take (Suc i) vs)),
            length (of_kind strtod KStr (take (Suc i) vs)))"
proof -
  have t: "take (Suc i) vs = take i vs @ [vs ! i]"
    using assms by (simp add: take_Suc_conv_app_nth)
  show ?thesis
  proof (cases "kind_of strtod (vs ! i)")
    case KBool
    then show ?thesis
      using assms boolean_at_index [OF assms KBool]
      by (simp add: load_step_def load_of_def classify_fields(1,2) t of_kind_def)
  next
    case KNum
    then show ?thesis
      using assms
      by (simp add: load_step_def load_of_def classify_fields t of_kind_def)
  next
    case KStr
    then show ?thesis
      using assms
      by (simp add: load_step_def load_of_def classify_fields t of_kind_def)
  qed
qed

lemma load_loop_spec:
  "k \<le> length vs \<Longrightarrow>
     foldl (load_step (classify strtod vs)) ([], 0, 0, 0) [0..<k]
       = (concat (map (\<lambda>i. encode_instr (load_of strtod vs i)) [0..<k]),
          length (of_kind strtod KNum (take k vs)), length (of_kind strtod KBool (take k vs)),
          length (of_kind strtod KStr (take k vs)))"
proof (induction k)
  case 0
  show ?case by (simp add: of_kind_def)
next
  case (Suc k)
  then have k: "k < length vs" by simp
  show ?case using Suc k by (simp add: load_step_spec)
qed

lemma kinds_partition:
  "length (of_kind strtod KNum vs) + length (of_kind strtod KBool vs)
     + length (of_kind strtod KStr vs) = length vs"
proof (induction vs)
  case Nil
  show ?case by (simp add: of_kind_def)
next
  case (Cons v vs)
  then show ?case by (cases "kind_of strtod v") (simp_all add: of_kind_def)
qed

lemma CreatePushMultiple_payload:
  "vs \<noteq> [] \<Longrightarrow>
     drop sizeof_header (CreatePushMultiple strtod vs) =
       writeVarInt (of_nat (length vs)) []
         @ concat (map number_entry (map (\<lambda>v. fst (strtod (c_str v))) (of_kind strtod KNum vs)))
         @ concat (map boolean_entry (map (\<lambda>v. v = lit ''true'') (of_kind strtod KBool vs)))
         @ concat (map string_entry (of_kind strtod KStr vs))
         @ [1] @ writeVarInt (of_nat (length vs)) [] @ [0, 0, 0]
         @ writeVarInt (of_nat (length vs)) []
         @ concat (map (\<lambda>i. encode_instr (load_of strtod vs i)) [0..<length vs])
         @ writeVarInt (of_nat (length vs)) [] @ [0, 0, 0, 0, 0]"
proof -
  assume ne: "vs \<noteq> []"
  have total: "length (numbers (classify strtod vs)) + length (booleans (classify strtod vs))
                 + length (strings (classify strtod vs)) = length vs"
    using kinds_partition [of strtod vs] by (simp add: classify_fields)
  have "drop sizeof_header (CreatePushMultiple strtod vs) =
       writeVarInt (of_nat (length vs)) []
         @ concat (map number_entry (numbers (classify strtod vs)))
         @ concat (map boolean_entry (booleans (classify strtod vs)))
         @ concat (map string_entry (strings (classify strtod vs)))
         @ [1] @ writeVarInt (of_nat (length vs)) [] @ [0, 0, 0]
         @ writeVarInt (of_nat (length vs)) []
         @ fst (foldl (load_step (classify strtod vs)) ([], 0, 0, 0) [0..<length vs])
         @ writeVarInt (of_nat (length vs)) [] @ [0, 0, 0, 0, 0]"
    by (simp only: CreatePushMultiple_shape [OF ne] Let_def total drop_assemble sizeof_header_def)
  then show ?thesis
    by (simp only: load_loop_spec [OF order_refl] fst_conv classify_fields)
qed


lemma count_prefix_le:
  "length (of_kind strtod k (take i vs)) \<le> length (of_kind strtod k vs)"
proof -
  have "of_kind strtod k vs = of_kind strtod k (take i vs) @ of_kind strtod k (drop i vs)"
    unfolding of_kind_def by (simp only: filter_append [symmetric] append_take_drop_id)
  then show ?thesis by simp
qed

lemma count_prefix_less:
  assumes "i < length vs" and "kind_of strtod (vs ! i) = k"
  shows "length (of_kind strtod k (take i vs)) < length (of_kind strtod k vs)"
  unfolding of_kind_def
  using assms filter_split_at [of i vs "\<lambda>v. kind_of strtod v = k"] by simp

lemma constant_ref_bounds:
  assumes "i < length vs" and "constant_ref (load_of strtod vs i) = Some k"
  shows "k < length vs
         \<and> (k < length (of_kind strtod KNum vs)
            \<or> length (of_kind strtod KNum vs) + length (of_kind strtod KBool vs) \<le> k)"
proof (cases "kind_of strtod (vs ! i)")
  case KBool
  then show ?thesis using assms(2) by (simp add: load_of_def)
next
  case KNum
  then have "k < length (of_kind strtod KNum vs)"
    using assms count_prefix_less [OF assms(1) KNum] by (simp add: load_of_def)
  then show ?thesis using kinds_partition [of strtod vs] by simp
next
  case KStr
  then have k: "k = length (of_kind strtod KNum vs) + length (of_kind strtod KBool vs)
                   + length (of_kind strtod KStr (take i vs))"
    using assms(2) by (simp add: load_of_def)
  then show ?thesis
    using count_prefix_less [OF assms(1) KStr] kinds_partition [of strtod vs] by simp
qed

text \<open>
  Claim C9, as amended. For every non-empty input list of at most 256 elements, the
  payload of the buffer of \<^verbatim>\<open>CreatePushMultiple\<close> declares a constant count equal to the
  number of elements; the pool holds the entries of the numbers, then one
  Boolean-tagged entry for each element classified as boolean, then the entries of the
  strings; the instruction stream holds the load of each element in order, where a
  \<^verbatim>\<open>LOADB\<close> carries its value inline and the \<^verbatim>\<open>LOADK\<close> of a string refers to the
  constant index (number of numeric elements + number of boolean elements + position
  among the strings); every index fits its operand byte; and no instruction refers to
  an index of a Boolean entry, which are the indices from the number of numeric
  elements up to that number plus the number of boolean elements.
\<close>

theorem C9_CreatePushMultiple_pool_and_loads:
  assumes "vs \<noteq> []" and "length vs \<le> 256"
  shows "drop sizeof_header (CreatePushMultiple strtod vs) =
           writeVarInt (of_nat (length vs)) []
             @ concat (map number_entry (map (\<lambda>v. fst (strtod (c_str v))) (of_kind strtod KNum vs)))
             @ concat (map boolean_entry (map (\<lambda>v. v = lit ''true'') (of_kind strtod KBool vs)))
             @ concat (map string_entry (of_kind strtod KStr vs))
             @ [1] @ writeVarInt (of_nat (length vs)) [] @ [0, 0, 0]
             @ writeVarInt (of_nat (length vs)) []
             @ concat (map (\<lambda>i. encode_instr (load_of strtod vs i)) [0..<length vs])
             @ writeVarInt (of_nat (length vs)) [] @ [0, 0, 0, 0, 0]
         \<and> unat (of_nat (length vs) :: 32 word) = length vs
         \<and> (\<forall>i<length vs. \<forall>k. constant_ref (load_of strtod vs i) = Some k \<longrightarrow>
               unat (of_nat k :: byte) = k
               \<and> (k < length (of_kind strtod KNum vs)
                  \<or> length (of_kind strtod KNum vs) + length (of_kind strtod KBool vs) \<le> k))"
proof -
  have c: "unat (of_nat (length vs) :: 32 word) = length vs"
    using assms(2) by (simp add: unat_of_nat)
  have r: "unat (of_nat k :: byte) = k
           \<and> (k < length (of_kind strtod KNum vs)
              \<or> length (of_kind strtod KNum vs) + length (of_kind strtod KBool vs) \<le> k)"
    if "i < length vs" and "constant_ref (load_of strtod vs i) = Some k" for i k
  proof -
    from constant_ref_bounds [OF that] have "k < 256" using assms(2) by simp
    then have "unat (of_nat k :: byte) = k" by (simp add: unat_of_nat)
    with constant_ref_bounds [OF that] show ?thesis by simp
  qed
  from CreatePushMultiple_payload [OF assms(1), of strtod] c r show ?thesis by blast
qed

text \<open>With a \<^verbatim>\<open>strtod\<close> that converts nothing, as the C library's does on \<^verbatim>\<open>x\<close> and
  \<^verbatim>\<open>a\<close>, these strings are no numbers.\<close>

lemma kind_examples:
  "kind_of (\<lambda>s. (0, 0)) (lit ''true'') = KBool"
  "kind_of (\<lambda>s. (0, 0)) (lit ''x'') = KStr"
  "kind_of (\<lambda>s. (0, 0)) (lit ''a'') = KStr"
  by (simp_all add: kind_of_def parses_fully_def lit_def)

text \<open>The payload for the list \<^verbatim>\<open>{"true", "x"}\<close>: two constants, the Boolean entry and
  the string entry; \<^verbatim>\<open>LOADB\<close> into register 0 with the value 1 inline, and \<^verbatim>\<open>LOADK\<close> into
  register 1 from constant 1.\<close>

theorem C9_CreatePushMultiple_pool_and_loads_witness:
  "[lit ''true'', lit ''x''] \<noteq> [] \<and> length [lit ''true'', lit ''x''] \<le> 256
   \<and> drop sizeof_header (CreatePushMultiple (\<lambda>s. (0, 0)) [lit ''true'', lit ''x''])
       = [2] @ [LBC_CONSTANT_BOOLEAN, 1] @ [LBC_CONSTANT_STRING, 1, 0x78]
           @ [1] @ [2, 0, 0, 0] @ [2]
           @ [encodeOpcode LOP_LOADB, 0, 1, 0] @ [encodeOpcode LOP_LOADK, 1, 1]
           @ [2] @ [0, 0, 0, 0, 0]"
proof -
  have two: "writeVarInt 2 [] = [2]"
    by (simp add: writeVarInt_rec [of 2])
  have up: "[0..<2] = [0, 1]" by code_simp
  show ?thesis
    using C9_CreatePushMultiple_pool_and_loads [of "[lit ''true'', lit ''x'']" "\<lambda>s. (0, 0)"]
    by (simp add: two up of_kind_def kind_examples load_of_def boolean_entry_def string_entry_def
        writeVarInt_1) (simp add: lit_def writeVarInt_1)
qed


text \<open>
  Claim C9 as stated fails on lists of more than 256 elements, since the operand of a
  load is one byte. For \<^verbatim>\<open>true\<close> followed by 256 times the string \<^verbatim>\<open>a\<close>, the pool starts
  with the count 257 (the varint \<open>0x81 0x02\<close>) and the Boolean entry, which has index 0.
  The last element is the 256th string: the claim gives its load the constant index
  \<open>0 + 1 + 255 = 256\<close>. The buffer ends with the last instruction, the two bytes of
  \<^verbatim>\<open>sizeK\<close> and five zero bytes, and that instruction is \<^verbatim>\<open>LOADK\<close> with the register byte
  0 and the constant operand 0: it refers to the Boolean entry.
\<close>

lemma last_load_of_example:
  "load_of (\<lambda>s. (0, 0)) (lit ''true'' # replicate 256 (lit ''a'')) 256 = LoadK 256 256"
  by (simp add: load_of_def of_kind_def kind_examples)

lemma writeVarInt_257: "writeVarInt 257 [] = [0x81, 0x02]"
  by (simp add: writeVarInt_rec [of 257] writeVarInt_rec [of 2])

theorem C9_operand_wraps_counterexample:
  "take 4 (drop sizeof_header (CreatePushMultiple (\<lambda>s. (0, 0)) (lit ''true'' # replicate 256 (lit ''a''))))
     = [0x81, 0x02] @ [LBC_CONSTANT_BOOLEAN, 1]
   \<and> take 3 (drop (length (CreatePushMultiple (\<lambda>s. (0, 0)) (lit ''true'' # replicate 256 (lit ''a''))) - 10)
            (CreatePushMultiple (\<lambda>s. (0, 0)) (lit ''true'' # replicate 256 (lit ''a''))))
     = [encodeOpcode LOP_LOADK, 0, 0]"
proof -
  let ?vs = "lit ''true'' # replicate 256 (lit ''a'')"
  let ?b = "CreatePushMultiple (\<lambda>s. (0, 0)) ?vs"
  have n: "length ?vs = 257" by simp
  have u: "[0..<257] = [0..<256] @ [256]"
    using upt_Suc_append [of 0 256] by simp
  have pool: "of_kind (\<lambda>s. (0, 0)) KNum ?vs = []" "of_kind (\<lambda>s. (0, 0)) KBool ?vs = [lit ''true'']"
    by (simp_all add: of_kind_def kind_examples)
  have first: "take 4 (drop sizeof_header ?b) = [0x81, 0x02] @ [LBC_CONSTANT_BOOLEAN, 1]"
    using CreatePushMultiple_payload [of ?vs "\<lambda>s. (0, 0)"]
    by (simp add: pool writeVarInt_257 boolean_entry_def)
  obtain p where bp: "?b = assemble p"
    using CreatePushMultiple_shape [of ?vs "\<lambda>s. (0, 0)"] by (simp add: Let_def)
  have "p = drop sizeof_header ?b" by (simp add: bp drop_assemble sizeof_header_def)
  then obtain x where p: "p = x @ [encodeOpcode LOP_LOADK, 0, 0] @ [0x81, 0x02, 0, 0, 0, 0, 0]"
    using CreatePushMultiple_payload [of ?vs "\<lambda>s. (0, 0)"]
    by (simp only: n u map_append concat_append list.map concat.simps append_Nil2
        last_load_of_example encode_instr.simps writeVarInt_257 append_assoc [symmetric]
        of_nat_numeral)
       (simp add: writeVarInt_257)
  have "?b = (take 12 (assemble p) @ x) @ [encodeOpcode LOP_LOADK, 0, 0] @ [0x81, 0x02, 0, 0, 0, 0, 0]"
    using append_take_drop_id [of 12 "assemble p"] by (simp add: bp drop_assemble p)
  then obtain y where y: "?b = y @ [encodeOpcode LOP_LOADK, 0, 0] @ [0x81, 0x02, 0, 0, 0, 0, 0]"
    by blast
  have "length ?b - 10 = length y"
    by (subst y) simp
  then have "take 3 (drop (length ?b - 10) ?b) = [encodeOpcode LOP_LOADK, 0, 0]"
    by (subst (2) y) simp
  with first show ?thesis by blast
qed

end
